theory Spec2Isabelle
  imports Complex_Main "HOL-Library.Multiset"
begin

section \<open>Numbers and utilities\<close>

text \<open>
  The page script works on JavaScript numbers. They are modelled as real numbers: the
  arithmetic of the script is taken exactly, and the rounding of IEEE doubles is not part of
  the model. Integer-valued quantities that the script obtains by \<^verbatim>\<open>Math.floor\<close>,
  \<^verbatim>\<open>Math.round\<close> or \<^verbatim>\<open>| 0\<close> are integers (type \<^typ>\<open>int\<close>), and \<^verbatim>\<open>clamp\<close> is used at both
  types.
\<close>

text \<open>\<^verbatim>\<open>const clamp = (n, min, max) => Math.max(min, Math.min(max, n));\<close>\<close>

definition clamp :: "'a::linorder \<Rightarrow> 'a \<Rightarrow> 'a \<Rightarrow> 'a" where
  "clamp n mn mx = max mn (min mx n)"

text \<open>
  The remainder operator \<^verbatim>\<open>a % b\<close> of JavaScript truncates the quotient towards zero, so
  the result has the sign of the dividend.
\<close>

definition trunc :: "real \<Rightarrow> int" where
  "trunc x = (if 0 \<le> x then \<lfloor>x\<rfloor> else \<lceil>x\<rceil>)"

definition jsmod :: "real \<Rightarrow> real \<Rightarrow> real" where
  "jsmod a b = a - b * of_int (trunc (a / b))"

text \<open>
  \<^verbatim>\<open>x | 0\<close> converts to a signed 32-bit integer: truncate, reduce modulo \<open>2^32\<close>, and read
  the result as a two's-complement value.
\<close>

definition toInt32 :: "real \<Rightarrow> int" where
  "toInt32 x =
     (let m = trunc x mod 4294967296
      in if 2147483648 \<le> m then m - 4294967296 else m)"

text \<open>\<^verbatim>\<open>Math.round\<close> rounds to the nearest integer, halves upwards.\<close>

definition js_round :: "real \<Rightarrow> int" where
  "js_round x = \<lfloor>x + 1 / 2\<rfloor>"

text \<open>
  Array indexing \<^verbatim>\<open>arr[i]\<close>: outside the array JavaScript yields \<^verbatim>\<open>undefined\<close>, which
  is \<open>None\<close> here.
\<close>

definition js_nth :: "'a list \<Rightarrow> int \<Rightarrow> 'a option" where
  "js_nth xs i = (if 0 \<le> i \<and> i < int (length xs) then Some (xs ! nat i) else None)"

section \<open>Easing functions\<close>

definition easeInCubic :: "real \<Rightarrow> real" where
  "easeInCubic t = t * t * t"

definition easeOutCubic :: "real \<Rightarrow> real" where
  "easeOutCubic t = 1 - (1 - t) ^ 3"

definition easeInOutCubic :: "real \<Rightarrow> real" where
  "easeInOutCubic t = (if t < 0.5 then 4 * t * t * t else 1 - (- 2 * t + 2) ^ 3 / 2)"

text \<open>\<^verbatim>\<open>easeOutPower(t, p)\<close> is only called with the exponents 4 and 7.\<close>

definition easeOutPower :: "real \<Rightarrow> nat \<Rightarrow> real" where
  "easeOutPower t p = 1 - (1 - t) ^ p"

definition spinProfile :: "real \<Rightarrow> real" where
  "spinProfile t =
     (let accelT = 0.18; cruiseT = 0.72; accelP = 0.12; cruiseP = 0.86
      in if t \<le> 0 then 0
         else if t \<ge> 1 then 1
         else if t < accelT then (let u = t / accelT in accelP * easeInCubic u)
         else if t < cruiseT then
           (let u = (t - accelT) / (cruiseT - accelT) in accelP + (cruiseP - accelP) * u)
         else (let u = (t - cruiseT) / (1 - cruiseT)
               in cruiseP + (1 - cruiseP) * easeOutCubic u))"

section \<open>The host\<close>

text \<open>
  What the script reads from the browser. \<open>hasCtx\<close> says that the canvas \<^verbatim>\<open>#fx\<close> gave a 2D
  context (\<^verbatim>\<open>fxCtx\<close> is truthy), \<open>prefersReducedMotion\<close> is the media query sampled once at
  load, and \<open>random k\<close> is the value returned by the \<open>k\<close>-th call of \<^verbatim>\<open>Math.random()\<close>
  (counting from 0). The script's state records how many values it has drawn. The contract
  of \<^verbatim>\<open>Math.random\<close>, a value in \<open>[0, 1)\<close>, is \<open>unitRandom\<close>; it is a hypothesis of the
  theorems that need it, not part of the model.
\<close>

record host =
  hasCtx :: bool
  prefersReducedMotion :: bool
  random :: "nat \<Rightarrow> real"

definition unitRandom :: "host \<Rightarrow> bool" where
  "unitRandom h = (\<forall>k. 0 \<le> random h k \<and> random h k < 1)"

text \<open>The viewport, \<^verbatim>\<open>window.innerWidth\<close> and \<^verbatim>\<open>window.innerHeight\<close>, can change between calls.\<close>

record viewport =
  innerWidth :: real
  innerHeight :: real

text \<open>\<^verbatim>\<open>rand(min, max)\<close> with the \<open>k\<close>-th random value.\<close>

definition rand :: "host \<Rightarrow> nat \<Rightarrow> real \<Rightarrow> real \<Rightarrow> real" where
  "rand h k mn mx = mn + random h k * (mx - mn)"

section \<open>Emoji rain\<close>

text \<open>
  The side of a drop is the string \<^verbatim>\<open>"left"\<close> or \<^verbatim>\<open>"right"\<close>; a side that is
  \<^verbatim>\<open>undefined\<close> is \<open>None\<close>. The icons are given by their code points.
\<close>

datatype side = Left | Right

definition rainIcons :: "nat list" where
  "rainIcons = [0x1F36B, 0x1F339, 0x1F497, 0x1F36C, 0x2728, 0x1F49D, 0x1F353]"

record drop =
  d_icon :: "nat option"
  d_size :: real
  d_side :: "side option"
  d_x :: real
  d_y :: real
  d_vy :: real
  d_vx :: real
  d_phase :: real
  d_vphase :: real
  d_alpha :: real

definition sideBandWidth :: "viewport \<Rightarrow> int" where
  "sideBandWidth vp = clamp (js_round (innerWidth vp * 0.22)) 140 280"

definition sideBounds :: "viewport \<Rightarrow> side option \<Rightarrow> real \<times> real" where
  "sideBounds vp sd =
     (let pad = 10; band = of_int (sideBandWidth vp)
      in if sd = Some Right
         then (max pad (innerWidth vp - band + pad), innerWidth vp - pad)
         else (pad, max (pad + 1) (band - pad)))"

definition desiredRainCount :: "viewport \<Rightarrow> int" where
  "desiredRainCount vp = (let byWidth = \<lfloor>innerWidth vp / 44\<rfloor> in clamp byWidth 12 30)"

text \<open>
  \<^verbatim>\<open>arr[j] = v\<close>: inside the array the element is replaced, at or beyond its end the array
  is extended (the skipped places read as \<^verbatim>\<open>undefined\<close>), and a negative \<open>j\<close> is not an
  index, so the elements stay as they are (the property that JavaScript sets instead is
  not kept). The shuffle only leaves the array when \<^verbatim>\<open>Math.random\<close> breaks its contract.
\<close>

definition js_set :: "'a option list \<Rightarrow> int \<Rightarrow> 'a option \<Rightarrow> 'a option list" where
  "js_set xs j v =
     (if j < 0 then xs
      else if j < int (length xs) then xs[nat j := v]
      else xs @ replicate (nat j - length xs) None @ [v])"

text \<open>Reading an element of an array whose elements may be \<^verbatim>\<open>undefined\<close>.\<close>

definition js_get :: "'a option list \<Rightarrow> int \<Rightarrow> 'a option" where
  "js_get xs j = (case js_nth xs j of None \<Rightarrow> None | Some v \<Rightarrow> v)"

text \<open>
  \<^verbatim>\<open>shuffleInPlace\<close>: the loop \<^verbatim>\<open>for (let i = arr.length - 1; i > 0; i--)\<close>, by recursion on
  \<open>i\<close>; each round draws one random value.
\<close>

fun shuffleFrom :: "host \<Rightarrow> nat \<Rightarrow> 'a option list \<Rightarrow> nat \<Rightarrow> 'a option list \<times> nat" where
  "shuffleFrom h 0 arr k = (arr, k)"
| "shuffleFrom h (Suc i) arr k =
     (let j = toInt32 (random h k * (real (Suc i) + 1));
          t = js_get arr (int (Suc i));
          arr1 = js_set arr (int (Suc i)) (js_get arr j);
          arr2 = js_set arr1 j t
      in shuffleFrom h i arr2 (k + 1))"

definition shuffleInPlace :: "host \<Rightarrow> 'a option list \<Rightarrow> nat \<Rightarrow> 'a option list \<times> nat" where
  "shuffleInPlace h arr k = shuffleFrom h (length arr - 1) arr k"

text \<open>
  \<^verbatim>\<open>resetDrop(drop, { startAbove, keepSide })\<close> assigns every field of the drop; the only
  field it reads is \<^verbatim>\<open>drop.side\<close>. So the model takes the old side (\<open>None\<close> for the fresh
  object \<^verbatim>\<open>{}\<close>) and returns the drop as it is after the call, with the number of random
  values drawn so far. The values are drawn in the order of the source: icon, size, side (if
  it is drawn), x, y, vy, vx, phase, vphase, alpha.
\<close>

definition resetDrop ::
  "host \<Rightarrow> viewport \<Rightarrow> bool \<Rightarrow> bool \<Rightarrow> side option \<Rightarrow> nat \<Rightarrow> drop \<times> nat" where
  "resetDrop h vp startAbove keepSide oldSide k =
     (let icon = js_nth rainIcons (toInt32 (random h k * real (length rainIcons)));
          size = rand h (k + 1) 18 30;
          redraw = (\<not> keepSide \<or> (oldSide \<noteq> Some Left \<and> oldSide \<noteq> Some Right));
          sd = (if redraw then Some (if random h (k + 2) < 0.5 then Left else Right)
                else oldSide);
          k1 = (if redraw then k + 3 else k + 2);
          (minX, maxX) = sideBounds vp sd
      in (\<lparr> d_icon = icon, d_size = size, d_side = sd,
            d_x = rand h k1 minX maxX,
            d_y = (if startAbove then rand h (k1 + 1) (- 120) (innerHeight vp * 0.35)
                   else rand h (k1 + 1) 0 (innerHeight vp)),
            d_vy = rand h (k1 + 2) 55 140,
            d_vx = rand h (k1 + 3) (- 6) 6,
            d_phase = rand h (k1 + 4) 0 (pi * 2),
            d_vphase = rand h (k1 + 5) 0.8 1.6,
            d_alpha = rand h (k1 + 6) 0.22 0.42 \<rparr>,
          k1 + 7))"

text \<open>The loop \<^verbatim>\<open>while (rainDrops.length < target)\<close> of \<^verbatim>\<open>syncRainDrops\<close>.\<close>

function growRain :: "host \<Rightarrow> viewport \<Rightarrow> int \<Rightarrow> drop list \<Rightarrow> nat \<Rightarrow> drop list \<times> nat" where
  "growRain h vp target ds k =
     (if int (length ds) < target
      then growRain h vp target (ds @ [fst (resetDrop h vp True False None k)])
             (snd (resetDrop h vp True False None k))
      else (ds, k))"
  by pat_completeness auto
termination
  by (relation "measure (\<lambda>(h, vp, target, ds, k). nat (target - int (length ds)))") auto

text \<open>
  The loop \<^verbatim>\<open>for (let i = 0; i < n; i++)\<close> that assigns the shuffled sides: the drops in
  order, \<open>i\<close> the index of the first one of \<open>ds\<close>. Every drop of the pool has been through
  \<^verbatim>\<open>resetDrop\<close>, so its \<^verbatim>\<open>x\<close> is a number and the test \<^verbatim>\<open>typeof d.x !== "number"\<close> is false.
\<close>

fun assignSides ::
  "host \<Rightarrow> viewport \<Rightarrow> side option list \<Rightarrow> int \<Rightarrow> drop list \<Rightarrow> nat \<Rightarrow> drop list \<times> nat" where
  "assignSides h vp sides i [] k = ([], k)"
| "assignSides h vp sides i (d # ds) k =
     (let sd = js_get sides i;
          (minX, maxX) = sideBounds vp sd;
          out = (d_x d < minX \<or> d_x d > maxX);
          d1 = d\<lparr> d_side := sd, d_x := (if out then rand h k minX maxX else d_x d) \<rparr>;
          (ds1, k1) = assignSides h vp sides (i + 1) ds (if out then k + 1 else k)
      in (d1 # ds1, k1))"

text \<open>The loop \<^verbatim>\<open>for (const d of rainDrops) resetDrop(d, { startAbove: true, keepSide: true })\<close>.\<close>

fun reseedAll :: "host \<Rightarrow> viewport \<Rightarrow> drop list \<Rightarrow> nat \<Rightarrow> drop list \<times> nat" where
  "reseedAll h vp [] k = ([], k)"
| "reseedAll h vp (d # ds) k =
     (let (d1, k1) = resetDrop h vp True True (d_side d) k;
          (ds1, k2) = reseedAll h vp ds k1
      in (d1 # ds1, k2))"

section \<open>Confetti particles\<close>

datatype kind = Heart | Rect

record particle =
  p_kind :: kind
  p_x :: real
  p_y :: real
  p_vx :: real
  p_vy :: real
  p_g :: real
  p_r :: real
  p_rot :: real
  p_vr :: real
  p_a :: real
  p_va :: real
  p_color :: "string option"

definition palette :: "string list" where
  "palette = [''#E63946'', ''#FF7FA3'', ''#FFD9A6'', ''#FFFFFF'']"

text \<open>
  The object pushed by one round of the loop of \<^verbatim>\<open>spawnConfetti\<close>. A round draws eight
  random values, in this order: \<^verbatim>\<open>ang\<close>, \<^verbatim>\<open>spd\<close>, \<^verbatim>\<open>kind\<close>, \<^verbatim>\<open>r\<close>, \<^verbatim>\<open>rot\<close>, \<^verbatim>\<open>vr\<close>,
  \<^verbatim>\<open>va\<close>, \<^verbatim>\<open>color\<close>.
\<close>

definition newParticle :: "host \<Rightarrow> real \<Rightarrow> real \<Rightarrow> real \<Rightarrow> nat \<Rightarrow> particle" where
  "newParticle h x y spread k =
     (let ang = random h k * pi * 2;
          spd = (1.2 + random h (k + 1) * 4.0) * spread
      in \<lparr> p_kind = (if random h (k + 2) < 0.18 then Heart else Rect),
           p_x = x,
           p_y = y,
           p_vx = cos ang * spd,
           p_vy = sin ang * spd - 2.0 * spread,
           p_g = 0.12 * spread,
           p_r = 2 + random h (k + 3) * 4,
           p_rot = random h (k + 4) * pi * 2,
           p_vr = (- 0.12 + random h (k + 5) * 0.24) * spread,
           p_a = 1,
           p_va = 0.012 + random h (k + 6) * 0.02,
           p_color = js_nth palette (toInt32 (random h (k + 7) * real (length palette))) \<rparr>)"

text \<open>
  The loop \<^verbatim>\<open>for (let i = 0; i < count; i++)\<close> of \<^verbatim>\<open>spawnConfetti\<close>; \<open>cnt\<close> is the
  parameter \<^verbatim>\<open>count\<close>.
\<close>

function spawnLoop ::
  "host \<Rightarrow> real \<Rightarrow> real \<Rightarrow> int \<Rightarrow> real \<Rightarrow> int \<Rightarrow> particle list \<Rightarrow> nat \<Rightarrow> particle list \<times> nat" where
  "spawnLoop h x y cnt spread i ps k =
     (if i < cnt
      then spawnLoop h x y cnt spread (i + 1) (ps @ [newParticle h x y spread k]) (k + 8)
      else (ps, k))"
  by pat_completeness auto
termination
  by (relation "measure (\<lambda>(h, x, y, cnt, spread, i, ps, k). nat (cnt - i))") auto

text \<open>
  The body of the loop over \<^verbatim>\<open>fxParticles\<close> in \<^verbatim>\<open>renderFxFrame\<close>: the update of one
  particle (\<^verbatim>\<open>p.y\<close> is advanced by the velocity already updated), and the test that
  removes it. Drawing does not change the state.
\<close>

definition updateParticle :: "particle \<Rightarrow> particle" where
  "updateParticle p =
     (let p1 = p\<lparr> p_vy := p_vy p + p_g p \<rparr>;
          p2 = p1\<lparr> p_x := p_x p1 + p_vx p1 \<rparr>;
          p3 = p2\<lparr> p_y := p_y p2 + p_vy p2 \<rparr>;
          p4 = p3\<lparr> p_rot := p_rot p3 + p_vr p3 \<rparr>
      in p4\<lparr> p_a := max 0 (p_a p4 - p_va p4) \<rparr>)"

definition expired :: "viewport \<Rightarrow> particle \<Rightarrow> bool" where
  "expired vp p = (p_a p \<le> 0 \<or> p_y p > innerHeight vp + 120)"

text \<open>
  The loop \<^verbatim>\<open>for (let i = fxParticles.length - 1; i >= 0; i--)\<close>: \<open>particlesFrom vp n ps\<close>
  runs it from \<open>i = n - 1\<close> down to 0, and \<^verbatim>\<open>splice(i, 1)\<close> removes the element at \<open>i\<close>.
  It is started with \<open>n = length ps\<close>, and a removal only shortens the list behind \<open>i\<close>, so
  \<open>ps ! i\<close> is always an element of the list.
\<close>

fun particlesFrom :: "viewport \<Rightarrow> nat \<Rightarrow> particle list \<Rightarrow> particle list" where
  "particlesFrom vp 0 ps = ps"
| "particlesFrom vp (Suc i) ps =
     (let p = updateParticle (ps ! i);
          ps1 = ps[i := p];
          ps2 = (if expired vp p then take i ps1 @ drop (Suc i) ps1 else ps1)
      in particlesFrom vp i ps2)"

definition renderParticles :: "viewport \<Rightarrow> particle list \<Rightarrow> particle list" where
  "renderParticles vp ps = particlesFrom vp (length ps) ps"

section \<open>The state of the page\<close>

text \<open>
  The animation of the wheel: the variables captured by the frame callback \<^verbatim>\<open>step\<close> of
  \<^verbatim>\<open>animateWheelToWithEasing\<close>.
\<close>

record anim =
  a_start :: real
  a_from :: real
  a_to :: real
  a_durationMs :: real
  a_easingFn :: "real \<Rightarrow> real"
  a_prev :: real

text \<open>
  The click handler of the spin button is an asynchronous function. Where it is suspended is
  part of the state: not running, waiting for the animation, or waiting for the pause after
  the wheel has stopped.
\<close>

datatype spin_task = NoTask | Animating anim | Settling

record page =
  rainEnabled :: bool
  rainDrops :: "drop list"
  fxParticles :: "particle list"
  fxRunning :: bool
  fxLastTs :: real
  rngPos :: nat
  wheelRotation :: real
  spinning :: bool
  spinBtnDisabled :: bool
  spinTask :: spin_task

section \<open>Rain pool and frame loop\<close>

definition syncRainDrops :: "host \<Rightarrow> viewport \<Rightarrow> bool \<Rightarrow> page \<Rightarrow> page" where
  "syncRainDrops h vp reseed st =
     (if \<not> rainEnabled st then st
      else
        let target = desiredRainCount vp;
            (ds1, k1) = growRain h vp target (rainDrops st) (rngPos st);
            ds2 = (if int (length ds1) > target then take (nat target) ds1 else ds1);
            (ds3, k3) =
              (if length ds2 > 0 then
                 let n = length ds2;
                     leftWanted = n div 2;
                     rightWanted = n - leftWanted;
                     sides = replicate leftWanted (Some Left) @ replicate rightWanted (Some Right);
                     (shuffled, k2) = shuffleInPlace h sides k1
                 in assignSides h vp shuffled 0 ds2 k2
               else (ds2, k1));
            (ds4, k4) = (if reseed then reseedAll h vp ds3 k3 else (ds3, k3))
        in st\<lparr> rainDrops := ds4, rngPos := k4 \<rparr>)"

text \<open>
  The body of the loop over \<^verbatim>\<open>rainDrops\<close> in \<^verbatim>\<open>renderFxFrame\<close>: fall and drift, the bounce
  at the edges of the band, and the recycling of a drop that has left the bottom.
\<close>

definition renderDrop :: "host \<Rightarrow> viewport \<Rightarrow> real \<Rightarrow> bool \<Rightarrow> drop \<Rightarrow> nat \<Rightarrow> drop \<times> nat" where
  "renderDrop h vp dt advance d k =
     (let d4 =
            (if advance then
               let d1 = d\<lparr> d_y := d_y d + d_vy d * dt \<rparr>;
                   d2 = d1\<lparr> d_x := d_x d1 + d_vx d1 * dt \<rparr>;
                   d3 = d2\<lparr> d_phase := d_phase d2 + d_vphase d2 * dt \<rparr>;
                   (minX, maxX) =
                     sideBounds vp (case d_side d3 of None \<Rightarrow> Some Left | Some s \<Rightarrow> Some s);
                   d3a = (if d_x d3 < minX then d3\<lparr> d_x := minX, d_vx := \<bar>d_vx d3\<bar> \<rparr> else d3)
               in (if d_x d3a > maxX then d3a\<lparr> d_x := maxX, d_vx := - \<bar>d_vx d3a\<bar> \<rparr> else d3a)
             else d)
      in if advance \<and> d_y d4 > innerHeight vp + 36
         then resetDrop h vp True True (d_side d4) k
         else (d4, k))"

fun renderRain ::
  "host \<Rightarrow> viewport \<Rightarrow> real \<Rightarrow> bool \<Rightarrow> drop list \<Rightarrow> nat \<Rightarrow> drop list \<times> nat" where
  "renderRain h vp dt advance [] k = ([], k)"
| "renderRain h vp dt advance (d # ds) k =
     (let (d1, k1) = renderDrop h vp dt advance d k;
          (ds1, k2) = renderRain h vp dt advance ds k1
      in (d1 # ds1, k2))"

definition renderFxFrame :: "host \<Rightarrow> viewport \<Rightarrow> real \<Rightarrow> bool \<Rightarrow> page \<Rightarrow> page" where
  "renderFxFrame h vp dt advance st =
     (if \<not> hasCtx h then st
      else
        let (ds, k) =
              (if rainEnabled st \<and> length (rainDrops st) > 0
               then renderRain h vp dt advance (rainDrops st) (rngPos st)
               else (rainDrops st, rngPos st))
        in st\<lparr> rainDrops := ds, rngPos := k,
                fxParticles := renderParticles vp (fxParticles st) \<rparr>)"

definition resizeFx :: "host \<Rightarrow> viewport \<Rightarrow> page \<Rightarrow> page" where
  "resizeFx h vp st = (if \<not> hasCtx h then st else syncRainDrops h vp False st)"

text \<open>
  \<^verbatim>\<open>spawnConfetti({ x, y, count, spread })\<close>. Every call in the script gives \<^verbatim>\<open>count\<close> and
  \<^verbatim>\<open>spread\<close>, so their defaults (90 and 3.6) are not modelled.
\<close>

definition spawnConfetti :: "host \<Rightarrow> real \<Rightarrow> real \<Rightarrow> int \<Rightarrow> real \<Rightarrow> page \<Rightarrow> page" where
  "spawnConfetti h x y cnt spread st =
     (if \<not> hasCtx h \<or> prefersReducedMotion h then st
      else
        let (ps, k) = spawnLoop h x y cnt spread 0 (fxParticles st) (rngPos st)
        in st\<lparr> fxParticles := ps, rngPos := k \<rparr>)"

text \<open>\<open>now\<close> is the value of \<^verbatim>\<open>performance.now()\<close>.\<close>

definition startFxLoop :: "host \<Rightarrow> real \<Rightarrow> page \<Rightarrow> page" where
  "startFxLoop h now st =
     (if \<not> hasCtx h then st
      else if fxRunning st then st
      else st\<lparr> fxRunning := True, fxLastTs := now \<rparr>)"

definition ensureFxLoop :: "host \<Rightarrow> real \<Rightarrow> page \<Rightarrow> page" where
  "ensureFxLoop h now st = (if \<not> hasCtx h then st else startFxLoop h now st)"

text \<open>
  \<^verbatim>\<open>fxTick(ts)\<close>, the frame callback; whether it asks for another frame is the flag
  \<^verbatim>\<open>fxRunning\<close>.
\<close>

definition fxTick :: "host \<Rightarrow> viewport \<Rightarrow> real \<Rightarrow> page \<Rightarrow> page" where
  "fxTick h vp ts st =
     (if \<not> hasCtx h then st
      else
        let dtMs = clamp (ts - fxLastTs st) 0 34;
            st1 = st\<lparr> fxLastTs := ts \<rparr>;
            dt = dtMs / 1000;
            st2 = renderFxFrame h vp dt True st1
        in if (rainEnabled st2 \<and> length (rainDrops st2) > 0) \<or> length (fxParticles st2) > 0
           then st2
           else st2\<lparr> fxRunning := False \<rparr>)"

text \<open>A run of frames, each with the viewport at that time and its timestamp.\<close>

fun runTicks :: "host \<Rightarrow> (viewport \<times> real) list \<Rightarrow> page \<Rightarrow> page" where
  "runTicks h [] st = st"
| "runTicks h ((vp, ts) # fs) st = runTicks h fs (fxTick h vp ts st)"

subsection \<open>Band confinement\<close>

text \<open>
  Band confinement, the property that the comments of the rain loop state ("keep within its
  side band"): the position of the drop lies within the bounds that \<^verbatim>\<open>sideBounds\<close> gives
  for its side.
\<close>

definition inBand :: "viewport \<Rightarrow> drop \<Rightarrow> bool" where
  "inBand vp d =
     (let (minX, maxX) = sideBounds vp (case d_side d of None \<Rightarrow> Some Left | Some s \<Rightarrow> Some s)
      in minX \<le> d_x d \<and> d_x d \<le> maxX)"

section \<open>The rigged wheel\<close>

definition sectorCount :: real where
  "sectorCount = 5"

definition sectorSize :: real where
  "sectorSize = 360 / sectorCount"

definition prizeIndex :: real where
  "prizeIndex = 2"

definition sectorCenterAngle :: "real \<Rightarrow> real" where
  "sectorCenterAngle index = index * sectorSize + sectorSize / 2"

text \<open>
  \<^verbatim>\<open>computeRiggedStopAngle()\<close> with the \<open>k\<close>-th random value (\<open>withinSector\<close> is the
  variable \<^verbatim>\<open>within\<close> of the source).
\<close>

definition computeRiggedStopAngle :: "host \<Rightarrow> nat \<Rightarrow> real" where
  "computeRiggedStopAngle h k =
     (let center = sectorCenterAngle prizeIndex;
          withinSector = random h k * (sectorSize * 0.6) - sectorSize * 0.3
      in jsmod (360 - (center + withinSector) + 360) 360)"

text \<open>
  \<^verbatim>\<open>clickSound\<close> asks the audio interface of the browser for a short tone, unless reduced
  motion is preferred. The request is the observable effect; the result is the list of the
  tones requested (none or one).
\<close>

datatype sound = Tone real real real

definition clickSound :: "host \<Rightarrow> real \<Rightarrow> real \<Rightarrow> real \<Rightarrow> sound list" where
  "clickSound h freq dur gain = (if prefersReducedMotion h then [] else [Tone freq dur gain])"

definition playTickIfCrossed :: "host \<Rightarrow> real \<Rightarrow> real \<Rightarrow> sound list" where
  "playTickIfCrossed h prevDeg nextDeg =
     (let prev = \<lfloor>jsmod (jsmod prevDeg 360 + 360) 360 / sectorSize\<rfloor>;
          next = \<lfloor>jsmod (jsmod nextDeg 360 + 360) 360 / sectorSize\<rfloor>
      in if prev \<noteq> next then clickSound h 980 0.015 0.045 else [])"

text \<open>
  \<^verbatim>\<open>animateWheelToWithEasing(targetDeg, durationMs, easingFn)\<close> called at the time \<open>now\<close>:
  it records the start and asks for the first frame.
\<close>

definition animateWheelToWithEasing ::
  "real \<Rightarrow> real \<Rightarrow> real \<Rightarrow> (real \<Rightarrow> real) \<Rightarrow> page \<Rightarrow> page" where
  "animateWheelToWithEasing now targetDeg durationMs easingFn st =
     st\<lparr> spinTask := Animating
            \<lparr> a_start = now, a_from = wheelRotation st, a_to = targetDeg,
              a_durationMs = durationMs, a_easingFn = easingFn,
              a_prev = wheelRotation st \<rparr> \<rparr>"

text \<open>
  The frame callback \<^verbatim>\<open>step(now)\<close> of the animation, with the tones it requests. On the
  last frame (\<open>t = 1\<close>) the promise is resolved and the click handler resumes before any other
  callback runs: it sets the rotation to the target (\<^verbatim>\<open>setWheelRotation(targetFinal)\<close>) and
  then waits for the pause. The duration of an animation is 2500 or at least 14000, never 0.
\<close>

definition animStep :: "host \<Rightarrow> real \<Rightarrow> page \<Rightarrow> page \<times> sound list" where
  "animStep h now st =
     (case spinTask st of
        Animating s \<Rightarrow>
          let t = clamp ((now - a_start s) / a_durationMs s) 0 1;
              eased = (if prefersReducedMotion h then t else a_easingFn s t);
              deg = a_from s + (a_to s - a_from s) * eased;
              st1 = st\<lparr> wheelRotation := deg \<rparr>;
              ticks = (if \<not> prefersReducedMotion h then playTickIfCrossed h (a_prev s) deg
                       else [])
          in if t < 1 then (st1\<lparr> spinTask := Animating (s\<lparr> a_prev := deg \<rparr>) \<rparr>, ticks)
             else (st1\<lparr> wheelRotation := a_to s, spinTask := Settling \<rparr>, ticks)
      | _ \<Rightarrow> (st, []))"

text \<open>The frames of an animation, at the given times, and all the tones requested.\<close>

fun runAnim :: "host \<Rightarrow> real list \<Rightarrow> page \<Rightarrow> page \<times> sound list" where
  "runAnim h [] st = (st, [])"
| "runAnim h (now # nows) st =
     (let (st1, s1) = animStep h now st;
          (st2, s2) = runAnim h nows st1
      in (st2, s1 @ s2))"

text \<open>
  The click handler of the spin button up to its first \<^verbatim>\<open>await\<close>; \<open>now\<close> is the value of
  \<^verbatim>\<open>performance.now()\<close>. It draws two random values.
\<close>

definition spinClick :: "host \<Rightarrow> real \<Rightarrow> page \<Rightarrow> page" where
  "spinClick h now st =
     (if spinning st then st
      else
        let st1 = st\<lparr> spinning := True, spinBtnDisabled := True \<rparr>;
            finalOffset = computeRiggedStopAngle h (rngPos st1);
            extraSpins = 7 + \<lfloor>random h (rngPos st1 + 1) * 3\<rfloor>;
            st2 = st1\<lparr> rngPos := rngPos st1 + 2 \<rparr>;
            currentMod = jsmod (jsmod (wheelRotation st2) 360 + 360) 360;
            deltaToOffset = jsmod (finalOffset - currentMod + 360) 360;
            targetFinal = wheelRotation st2 + of_int extraSpins * 360 + deltaToOffset
        in if prefersReducedMotion h
           then animateWheelToWithEasing now targetFinal 2500 (\<lambda>t. easeOutPower t 4) st2
           else
             let totalDegrees = max 0 (targetFinal - wheelRotation st2);
                 durationMs = clamp (totalDegrees / 360 * 2400) 14000 26000
             in animateWheelToWithEasing now targetFinal durationMs
                  (\<lambda>t. easeOutPower t 7) st2)"

text \<open>
  The rest of the click handler, after the pause: the prize is shown, confetti is spawned at
  the top of the wheel (\<open>rLeft\<close>, \<open>rTop\<close>, \<open>rWidth\<close> are \<^verbatim>\<open>r.left\<close>, \<^verbatim>\<open>r.top\<close>, \<^verbatim>\<open>r.width\<close> of
  \<^verbatim>\<open>getBoundingClientRect()\<close>), and the button is released.
\<close>

definition spinReveal :: "host \<Rightarrow> real \<Rightarrow> real \<Rightarrow> real \<Rightarrow> real \<Rightarrow> page \<Rightarrow> page" where
  "spinReveal h rLeft rTop rWidth now st =
     (if spinTask st \<noteq> Settling then st
      else
        let st1 = spawnConfetti h (rLeft + rWidth / 2) (rTop + 40) 140 3.6 st;
            st2 = ensureFxLoop h now st1
        in st2\<lparr> spinning := False, spinBtnDisabled := False, spinTask := NoTask \<rparr>)"

section \<open>Page load\<close>

text \<open>The variables of the script as they are initialised.\<close>

definition initialPage :: page where
  "initialPage =
     \<lparr> rainEnabled = False, rainDrops = [], fxParticles = [], fxRunning = False,
       fxLastTs = 0, rngPos = 0, wheelRotation = 0, spinning = False,
       spinBtnDisabled = False, spinTask = NoTask \<rparr>"

text \<open>
  What the script does when it is loaded: \<^verbatim>\<open>resizeFx()\<close>, then, if there is a context, the
  rain is enabled, the pool is filled and reseeded, and the frame loop is started.
\<close>

definition pageLoad :: "host \<Rightarrow> viewport \<Rightarrow> real \<Rightarrow> page" where
  "pageLoad h vp now =
     (let st = resizeFx h vp initialPage
      in if hasCtx h
         then startFxLoop h now (syncRainDrops h vp True (st\<lparr> rainEnabled := True \<rparr>))
         else st)"

text \<open>
  A source of random values that always returns \<open>c\<close>, for the examples below.
\<close>

definition constRandom :: "real \<Rightarrow> nat \<Rightarrow> real" where
  "constRandom c k = c"

section \<open>The easing profile of the wheel\<close>

text \<open>
  Two continuous functions that agree at \<open>a\<close>, glued at \<open>a\<close>, give a function that is
  continuous at \<open>a\<close>.
\<close>

lemma isCont_glue:
  fixes f g p :: "real \<Rightarrow> real"
  assumes f: "isCont f a" and g: "isCont g a" and eq: "f a = g a"
    and lo: "lo < a" and hi: "a < hi"
    and p: "\<And>t. lo < t \<Longrightarrow> t < hi \<Longrightarrow> p t = (if t < a then f t else g t)"
  shows "isCont p a"
proof -
  have "isCont (\<lambda>t. if t \<le> a then f t else g t) a"
  proof (rule isCont_If_ge)
    show "continuous (at_left a) f"
      using f by (simp add: continuous_at_imp_continuous_at_within)
    have "(g \<longlongrightarrow> g a) (at a)"
      using g by (simp add: isCont_def)
    then have "(g \<longlongrightarrow> g a) (at_right a)"
      by (rule filterlim_mono) (simp_all add: at_le)
    then show "(g \<longlongrightarrow> f a) (at_right a)"
      by (simp add: eq)
  qed
  moreover have "\<forall>\<^sub>F t in nhds a. p t = (if t \<le> a then f t else g t)"
  proof -
    have "\<forall>\<^sub>F t in nhds a. t \<in> {lo<..<hi}"
      by (rule eventually_nhds_in_open) (use lo hi in auto)
    then show ?thesis
      by eventually_elim (use p eq in auto)
  qed
  ultimately show ?thesis
    by (simp cong: isCont_cong)
qed

lemma spinProfile_isCont_accel: "isCont spinProfile 0.18"
  by (rule isCont_glue[where lo = "0.1" and hi = "0.5"
        and f = "\<lambda>t. 0.12 * easeInCubic (t / 0.18)"
        and g = "\<lambda>t. 0.12 + (0.86 - 0.12) * ((t - 0.18) / (0.72 - 0.18))"])
     (auto simp: spinProfile_def easeInCubic_def intro!: continuous_intros)

lemma spinProfile_isCont_cruise: "isCont spinProfile 0.72"
  by (rule isCont_glue[where lo = "0.5" and hi = "0.9"
        and f = "\<lambda>t. 0.12 + (0.86 - 0.12) * ((t - 0.18) / (0.72 - 0.18))"
        and g = "\<lambda>t. 0.86 + (1 - 0.86) * easeOutCubic ((t - 0.72) / (1 - 0.72))"])
     (auto simp: spinProfile_def easeOutCubic_def intro!: continuous_intros)

text \<open>
  C4. The profile takes the values \<open>spinProfile 0 = 0\<close>, \<open>spinProfile 0.18 = 0.12\<close>,
  \<open>spinProfile 0.72 = 0.86\<close> and \<open>spinProfile 1 = 1\<close>, and it is continuous at the two points
  where its segments meet, \<open>t = 0.18\<close> and \<open>t = 0.72\<close>: the cubic-in segment tends to 0.12
  and the linear segment to 0.86, the values with which the next segment starts.
\<close>

theorem spinProfile_boundaries:
  "spinProfile 0 = 0 \<and> spinProfile 0.18 = 0.12 \<and> spinProfile 0.72 = 0.86 \<and> spinProfile 1 = 1
   \<and> isCont spinProfile 0.18 \<and> isCont spinProfile 0.72"
proof -
  have "spinProfile 0 = 0" "spinProfile 0.18 = 0.12" "spinProfile 0.72 = 0.86"
    "spinProfile 1 = 1"
    by (simp_all add: spinProfile_def easeInCubic_def easeOutCubic_def)
  then show ?thesis
    using spinProfile_isCont_accel spinProfile_isCont_cruise by simp
qed

section \<open>Random indices\<close>

text \<open>
  With a random value \<open>u\<close> in \<open>[0, 1)\<close>, the index \<^verbatim>\<open>(u * n) | 0\<close> lies inside an array of
  \<open>n\<close> elements.
\<close>

lemma toInt32_index:
  assumes "0 \<le> u" "u < 1" "0 < n" "n < 2147483648"
  shows "0 \<le> toInt32 (u * real n) \<and> toInt32 (u * real n) < int n"
proof -
  define m where "m = \<lfloor>u * real n\<rfloor>"
  have nn: "0 \<le> u * real n" using assms by simp
  have lt: "u * real n < real n" using assms by simp
  have m0: "0 \<le> m" using nn by (simp add: m_def)
  have m1: "m < int n" using lt by (simp add: m_def floor_less_iff)
  have tr: "trunc (u * real n) = m" using nn by (simp add: trunc_def m_def)
  have m2: "m < 2147483648" using m1 assms(4) by linarith
  have "m mod 4294967296 = m"
    by (rule mod_pos_pos_trivial) (use m0 m2 in linarith)+
  then have "toInt32 (u * real n) = m"
    using m2 by (simp add: toInt32_def tr Let_def)
  then show ?thesis using m0 m1 by simp
qed

section \<open>Confetti bursts\<close>

declare spawnLoop.simps [simp del]

text \<open>The loop of \<^verbatim>\<open>spawnConfetti\<close> appends one particle per round.\<close>

lemma spawnLoop_eq:
  "nat (cnt - i) = n \<Longrightarrow>
   spawnLoop h x y cnt spread i ps k =
     (ps @ map (\<lambda>j. newParticle h x y spread (k + 8 * j)) [0..<n], k + 8 * n)"
proof (induction n arbitrary: i ps k)
  case 0
  then have "\<not> i < cnt" by simp
  then show ?case by (simp add: spawnLoop.simps[of h x y cnt spread i ps k])
next
  case (Suc n)
  then have lt: "i < cnt" and n: "nat (cnt - (i + 1)) = n" by simp_all
  have "spawnLoop h x y cnt spread i ps k =
        spawnLoop h x y cnt spread (i + 1) (ps @ [newParticle h x y spread k]) (k + 8)"
    using lt by (simp add: spawnLoop.simps[of h x y cnt spread i ps k])
  also have "\<dots> = ((ps @ [newParticle h x y spread k]) @
       map (\<lambda>j. newParticle h x y spread (k + 8 + 8 * j)) [0..<n], k + 8 + 8 * n)"
    by (rule Suc.IH[OF n])
  also have "\<dots> = (ps @ map (\<lambda>j. newParticle h x y spread (k + 8 * j)) [0..<Suc n],
       k + 8 * Suc n)"
    by (simp add: map_upt_Suc add.assoc del: upt_Suc)
  finally show ?case .
qed




section \<open>Spin requests while the wheel is spinning\<close>

text \<open>
  C8. A click on the spin button while \<^verbatim>\<open>spinning\<close> is set changes nothing. After any click
  the flag is set, so a second click right after the first one leaves the state of the first
  one as it is: the same animation with the same target, and no further random value drawn.
\<close>

theorem spinClick_reentrant:
  "(spinning st \<longrightarrow> spinClick h now st = st)
   \<and> spinning (spinClick h now st)
   \<and> spinClick h now' (spinClick h now st) = spinClick h now st"
proof -
  have a: "spinning st' \<Longrightarrow> spinClick h t st' = st'" for st' t
    by (simp add: spinClick_def)
  have b: "spinning (spinClick h now st)"
    by (simp add: spinClick_def animateWheelToWithEasing_def Let_def)
  show ?thesis using a b by simp
qed

theorem spinClick_reentrant_witness:
  "spinning (spinClick \<lparr> hasCtx = True, prefersReducedMotion = False, random = constRandom (1/2) \<rparr> 0
       initialPage)
   \<and> spinClick \<lparr> hasCtx = True, prefersReducedMotion = False, random = constRandom (1/2) \<rparr> 5
        (spinClick \<lparr> hasCtx = True, prefersReducedMotion = False, random = constRandom (1/2) \<rparr> 0
           initialPage)
     = spinClick \<lparr> hasCtx = True, prefersReducedMotion = False, random = constRandom (1/2) \<rparr> 0
         initialPage
   \<and> rngPos (spinClick \<lparr> hasCtx = True, prefersReducedMotion = False, random = constRandom (1/2) \<rparr> 5
        (spinClick \<lparr> hasCtx = True, prefersReducedMotion = False, random = constRandom (1/2) \<rparr> 0
           initialPage)) = 2"
proof -
  let ?h = "\<lparr> hasCtx = True, prefersReducedMotion = False, random = constRandom (1/2) \<rparr>"
  have a: "spinning (spinClick ?h 0 initialPage)"
    by (simp add: spinClick_def initialPage_def animateWheelToWithEasing_def Let_def)
  have b: "rngPos (spinClick ?h 0 initialPage) = 2"
    by (simp add: spinClick_def initialPage_def animateWheelToWithEasing_def Let_def)
  from spinClick_reentrant[of "spinClick ?h 0 initialPage" ?h 5 5] a
  have "spinClick ?h 5 (spinClick ?h 0 initialPage) = spinClick ?h 0 initialPage"
    by blast
  then show ?thesis using a b by simp
qed

section \<open>Ticks under reduced motion\<close>

lemma animStep_reduced: "prefersReducedMotion h \<Longrightarrow> snd (animStep h now st) = []"
  by (simp add: animStep_def Let_def split: spin_task.splits)

text \<open>
  C10. When reduced motion is preferred, the frames of a wheel animation request no tick,
  whatever the times of the frames and whatever angles the wheel passes: the frame callback
  skips the crossing check, and the check itself would request nothing either, since
  \<^verbatim>\<open>clickSound\<close> returns at once.
\<close>

theorem reduced_motion_no_ticks:
  assumes "prefersReducedMotion h"
  shows "snd (runAnim h nows st) = [] \<and> playTickIfCrossed h prevDeg nextDeg = []"
proof -
  have "snd (runAnim h nows st) = []"
  proof (induction nows arbitrary: st)
    case Nil
    show ?case by simp
  next
    case (Cons now nows)
    show ?case
      using Cons[of "fst (animStep h now st)"] animStep_reduced[OF assms, of now st]
      by (simp add: case_prod_unfold Let_def)
  qed
  moreover have "playTickIfCrossed h prevDeg nextDeg = []"
    using assms by (simp add: playTickIfCrossed_def clickSound_def Let_def)
  ultimately show ?thesis by simp
qed

text \<open>
  An example: a spin under reduced motion from the rotation 0, with two frames, ends at the
  rotation 3060 (eight turns and a half) without a tone.
\<close>

lemma rigged_half: "computeRiggedStopAngle
    \<lparr> hasCtx = True, prefersReducedMotion = True, random = constRandom (1/2) \<rparr> 0 = 180"
  by (simp add: computeRiggedStopAngle_def sectorCenterAngle_def sectorSize_def sectorCount_def
      prizeIndex_def constRandom_def jsmod_def trunc_def Let_def)

theorem reduced_motion_no_ticks_witness:
  "prefersReducedMotion \<lparr> hasCtx = True, prefersReducedMotion = True, random = constRandom (1/2) \<rparr>
   \<and> runAnim \<lparr> hasCtx = True, prefersReducedMotion = True, random = constRandom (1/2) \<rparr>
         [1250, 2500]
         (spinClick \<lparr> hasCtx = True, prefersReducedMotion = True, random = constRandom (1/2) \<rparr> 0
            initialPage)
     = (initialPage\<lparr> wheelRotation := 3060, spinning := True, spinBtnDisabled := True,
          rngPos := 2, spinTask := Settling \<rparr>, [])"
proof -
  let ?h = "\<lparr> hasCtx = True, prefersReducedMotion = True, random = constRandom (1/2) \<rparr>"
  have f: "\<lfloor>(3::real) / 2\<rfloor> = 1" by (rule floor_unique) simp_all
  have "fst (runAnim ?h [1250, 2500] (spinClick ?h 0 initialPage)) =
        initialPage\<lparr> wheelRotation := 3060, spinning := True, spinBtnDisabled := True,
          rngPos := 2, spinTask := Settling \<rparr>"
    by (simp add: spinClick_def animStep_def animateWheelToWithEasing_def initialPage_def
        rigged_half constRandom_def jsmod_def trunc_def clamp_def Let_def f)
  moreover have "snd (runAnim ?h [1250, 2500] (spinClick ?h 0 initialPage)) = []"
    using reduced_motion_no_ticks[of ?h "[1250, 2500]" "spinClick ?h 0 initialPage" 0 0]
    by simp
  ultimately show ?thesis by (simp add: prod_eq_iff)
qed

text \<open>
  Without the preference the crossing check does request a tone, here between the angles 60
  and 100 (the boundary of the sectors 0 and 1 is at 72).
\<close>

lemma tick_on_crossing:
  "playTickIfCrossed \<lparr> hasCtx = True, prefersReducedMotion = False, random = constRandom (1/2) \<rparr>
     60 100 = [Tone 980 0.015 0.045]"
proof -
  have "\<lfloor>(60::real) / 360\<rfloor> = 0" "\<lfloor>(420::real) / 360\<rfloor> = 1" "\<lfloor>(60::real) / 72\<rfloor> = 0"
    "\<lfloor>(100::real) / 360\<rfloor> = 0" "\<lfloor>(460::real) / 360\<rfloor> = 1" "\<lfloor>(100::real) / 72\<rfloor> = 1"
    by (rule floor_unique; simp)+
  then show ?thesis
    by (simp add: playTickIfCrossed_def clickSound_def jsmod_def trunc_def sectorSize_def
        sectorCount_def Let_def)
qed

section \<open>The particle loop of a frame\<close>

text \<open>
  The loop runs from the last particle to the first and removes the expired ones in place.
  Its result is the list of the updated particles without the expired ones, in the same
  order.
\<close>

lemma particlesFrom_eq:
  "n \<le> length ps \<Longrightarrow>
   particlesFrom vp n ps =
     filter (\<lambda>p. \<not> expired vp p) (map updateParticle (take n ps)) @ drop n ps"
proof (induction n arbitrary: ps)
  case 0
  show ?case by simp
next
  case (Suc i)
  then have i: "i < length ps" by simp
  let ?p = "updateParticle (ps ! i)"
  let ?ps1 = "ps[i := ?p]"
  let ?ps2 = "if expired vp ?p then take i ?ps1 @ drop (Suc i) ?ps1 else ?ps1"
  have len: "i \<le> length ?ps2" using i by auto
  have tk: "take i ?ps2 = take i ps" using i by simp
  have dr: "drop i ?ps2 = (if expired vp ?p then [] else [?p]) @ drop (Suc i) ps"
    using i by (simp add: drop_update_cancel Cons_nth_drop_Suc[symmetric] upd_conv_take_nth_drop)
  have "particlesFrom vp (Suc i) ps = particlesFrom vp i ?ps2"
    by (simp add: Let_def)
  also have "\<dots> = filter (\<lambda>p. \<not> expired vp p) (map updateParticle (take i ?ps2)) @ drop i ?ps2"
    by (rule Suc.IH[OF len])
  also have "\<dots> = filter (\<lambda>p. \<not> expired vp p) (map updateParticle (take (Suc i) ps))
                   @ drop (Suc i) ps"
    unfolding tk dr using i by (simp add: take_Suc_conv_app_nth)
  finally show ?case .
qed

lemma renderParticles_eq:
  "renderParticles vp ps = filter (\<lambda>p. \<not> expired vp p) (map updateParticle ps)"
  by (simp add: renderParticles_def particlesFrom_eq)

lemma renderFxFrame_particles:
  "fxParticles (renderFxFrame h vp dt advance st) =
     (if hasCtx h then renderParticles vp (fxParticles st) else fxParticles st)"
  by (simp add: renderFxFrame_def Let_def case_prod_unfold)

lemma fxTick_particles:
  "fxParticles (fxTick h vp ts st) =
     (if hasCtx h then renderParticles vp (fxParticles st) else fxParticles st)"
  by (simp add: fxTick_def Let_def renderFxFrame_particles)

lemma runTicks_particles_cong:
  "map fst fs = map fst fs' \<Longrightarrow> fxParticles st = fxParticles st' \<Longrightarrow>
   fxParticles (runTicks h fs st) = fxParticles (runTicks h fs' st')"
proof (induction fs arbitrary: fs' st st')
  case Nil
  then show ?case by simp
next
  case (Cons f fs)
  then obtain f' fs1 where fs': "fs' = f' # fs1" by (cases fs') auto
  obtain vp ts where f: "f = (vp, ts)" by (cases f)
  obtain vp' ts' where f': "f' = (vp', ts')" by (cases f')
  from Cons.prems(1) fs' f f' have vp: "vp' = vp" and rest: "map fst fs = map fst fs1" by simp_all
  have "fxParticles (fxTick h vp ts st) = fxParticles (fxTick h vp ts' st')"
    using Cons.prems(2) by (simp add: fxTick_particles)
  from Cons.IH[OF rest this] show ?case
    by (simp add: fs' f f' vp)
qed

text \<open>
  C2, as the script has it. A frame applies one fixed update to every particle, whatever the
  elapsed time \<open>dt\<close> passed to \<^verbatim>\<open>renderFxFrame\<close>: \<open>vy\<close> grows by \<open>g\<close>, \<open>x\<close> by \<open>vx\<close>, \<open>y\<close> by
  the new \<open>vy\<close>, \<open>rot\<close> by \<open>vr\<close>, and the opacity falls by \<open>va\<close>, not below 0; none of them is
  scaled by \<open>dt\<close>. So the particles after a frame are the same for any two values of \<open>dt\<close>,
  and the particles after a run of frames depend on the number of the frames (and the
  viewports at them), not on their timestamps.
\<close>

theorem particles_advance_per_frame:
  "(hasCtx h \<longrightarrow>
      fxParticles (renderFxFrame h vp dt advance st) =
        filter (\<lambda>p. \<not> expired vp p) (map updateParticle (fxParticles st)))
   \<and> p_vy (updateParticle p) = p_vy p + p_g p
   \<and> p_x (updateParticle p) = p_x p + p_vx p
   \<and> p_y (updateParticle p) = p_y p + (p_vy p + p_g p)
   \<and> p_rot (updateParticle p) = p_rot p + p_vr p
   \<and> p_a (updateParticle p) = max 0 (p_a p - p_va p)
   \<and> fxParticles (renderFxFrame h vp dt advance st) =
       fxParticles (renderFxFrame h vp dt' advance' st)
   \<and> (map fst fs = map fst fs' \<longrightarrow>
        fxParticles (runTicks h fs st) = fxParticles (runTicks h fs' st))"
proof -
  have "map fst fs = map fst fs' \<Longrightarrow>
        fxParticles (runTicks h fs st) = fxParticles (runTicks h fs' st)"
    by (rule runTicks_particles_cong) simp_all
  then show ?thesis
    by (simp add: renderFxFrame_particles renderParticles_eq updateParticle_def Let_def)
qed

theorem particles_advance_per_frame_witness:
  "fxParticles (runTicks \<lparr> hasCtx = True, prefersReducedMotion = False, random = constRandom (1/2) \<rparr>
       [(\<lparr> innerWidth = 1000, innerHeight = 800 \<rparr>, 17), (\<lparr> innerWidth = 1000, innerHeight = 800 \<rparr>, 34)]
       (spawnConfetti \<lparr> hasCtx = True, prefersReducedMotion = False, random = constRandom (1/2) \<rparr>
          0 0 90 3.6 initialPage))
   = fxParticles (runTicks \<lparr> hasCtx = True, prefersReducedMotion = False, random = constRandom (1/2) \<rparr>
       [(\<lparr> innerWidth = 1000, innerHeight = 800 \<rparr>, 1000), (\<lparr> innerWidth = 1000, innerHeight = 800 \<rparr>, 5000)]
       (spawnConfetti \<lparr> hasCtx = True, prefersReducedMotion = False, random = constRandom (1/2) \<rparr>
          0 0 90 3.6 initialPage))"
  using particles_advance_per_frame[where
      h = "\<lparr> hasCtx = True, prefersReducedMotion = False, random = constRandom (1/2) \<rparr>"
      and fs = "[(\<lparr> innerWidth = 1000, innerHeight = 800 \<rparr>, 17), (\<lparr> innerWidth = 1000, innerHeight = 800 \<rparr>, 34)]"
      and fs' = "[(\<lparr> innerWidth = 1000, innerHeight = 800 \<rparr>, 1000), (\<lparr> innerWidth = 1000, innerHeight = 800 \<rparr>, 5000)]"]
  by simp

text \<open>
  The update is not scaled by the elapsed time: a frame with \<open>dt = 0.034\<close> seconds raises the velocity
  \<open>vy = 1\<close> of a particle with gravity \<open>g = 1\<close> to 2, not to \<open>1 + 1 * 0.034\<close>; and over the same
  elapsed time of 34 ms, one frame moves the particle to \<open>y = 2\<close> and two frames to \<open>y = 5\<close>.
\<close>

theorem particles_advance_counterexample:
  "map p_vy (fxParticles (fxTick
       \<lparr> hasCtx = True, prefersReducedMotion = False, random = constRandom (1/2) \<rparr>
       \<lparr> innerWidth = 1000, innerHeight = 800 \<rparr> 34
       (initialPage\<lparr> fxParticles :=
          [\<lparr> p_kind = Rect, p_x = 0, p_y = 0, p_vx = 1, p_vy = 1, p_g = 1, p_r = 2, p_rot = 0,
             p_vr = 1, p_a = 1, p_va = 1 / 100, p_color = Some ''#FFFFFF'' \<rparr>] \<rparr>))) = [2]
   \<and> (2::real) \<noteq> 1 + 1 * (34 / 1000)
   \<and> map p_y (fxParticles (runTicks
       \<lparr> hasCtx = True, prefersReducedMotion = False, random = constRandom (1/2) \<rparr>
       [(\<lparr> innerWidth = 1000, innerHeight = 800 \<rparr>, 34)]
       (initialPage\<lparr> fxParticles :=
          [\<lparr> p_kind = Rect, p_x = 0, p_y = 0, p_vx = 1, p_vy = 1, p_g = 1, p_r = 2, p_rot = 0,
             p_vr = 1, p_a = 1, p_va = 1 / 100, p_color = Some ''#FFFFFF'' \<rparr>] \<rparr>))) = [2]
   \<and> map p_y (fxParticles (runTicks
       \<lparr> hasCtx = True, prefersReducedMotion = False, random = constRandom (1/2) \<rparr>
       [(\<lparr> innerWidth = 1000, innerHeight = 800 \<rparr>, 17), (\<lparr> innerWidth = 1000, innerHeight = 800 \<rparr>, 34)]
       (initialPage\<lparr> fxParticles :=
          [\<lparr> p_kind = Rect, p_x = 0, p_y = 0, p_vx = 1, p_vy = 1, p_g = 1, p_r = 2, p_rot = 0,
             p_vr = 1, p_a = 1, p_va = 1 / 100, p_color = Some ''#FFFFFF'' \<rparr>] \<rparr>))) = [5]"
  by (simp add: fxTick_particles renderParticles_eq expired_def updateParticle_def
      initialPage_def Let_def)

section \<open>Opacity and pruning of particles\<close>

lemma updateParticle_a: "p_a (updateParticle p) = max 0 (p_a p - p_va p)"
  by (simp add: updateParticle_def Let_def)

lemma updateParticle_va: "p_va (updateParticle p) = p_va p"
  by (simp add: updateParticle_def Let_def)

lemma renderParticles_alive:
  "p \<in> set (renderParticles vp ps) \<Longrightarrow> 0 < p_a p \<and> p_y p \<le> innerHeight vp + 120"
  by (auto simp: renderParticles_eq expired_def)

lemma renderParticles_budget:
  assumes "\<forall>p\<in>set ps. p_a p \<le> real (Suc n) * p_va p"
  shows "\<forall>p\<in>set (renderParticles vp ps). p_a p \<le> real n * p_va p"
proof
  fix q assume "q \<in> set (renderParticles vp ps)"
  then obtain p where p: "p \<in> set ps" "q = updateParticle p" "\<not> expired vp q"
    by (auto simp: renderParticles_eq)
  then have pos: "0 < p_a q" by (simp add: expired_def)
  then have "p_a q = p_a p - p_va p"
    using p(2) by (simp add: updateParticle_a max_def split: if_splits)
  moreover have "p_a p \<le> real (Suc n) * p_va p" using assms p(1) by blast
  ultimately show "p_a q \<le> real n * p_va q"
    using p(2) by (simp add: updateParticle_va algebra_simps)
qed

lemma runTicks_empty:
  "hasCtx h \<Longrightarrow> fxParticles st = [] \<Longrightarrow> fxParticles (runTicks h fs st) = []"
proof (induction fs arbitrary: st)
  case Nil
  then show ?case by simp
next
  case (Cons f fs)
  obtain vp ts where f: "f = (vp, ts)" by (cases f)
  have "fxParticles (fxTick h vp ts st) = []"
    using Cons.prems by (simp add: fxTick_particles renderParticles_eq)
  from Cons.IH[OF Cons.prems(1) this] show ?case by (simp add: f)
qed

lemma runTicks_prunes:
  assumes "hasCtx h"
  shows "fs \<noteq> [] \<Longrightarrow> \<forall>p\<in>set (fxParticles st). p_a p \<le> real (length fs) * p_va p \<Longrightarrow>
         fxParticles (runTicks h fs st) = []"
proof (induction fs arbitrary: st)
  case Nil
  then show ?case by simp
next
  case (Cons f fs)
  obtain vp ts where f: "f = (vp, ts)" by (cases f)
  let ?st1 = "fxTick h vp ts st"
  have ps1: "fxParticles ?st1 = renderParticles vp (fxParticles st)"
    using assms by (simp add: fxTick_particles)
  have bud: "\<forall>p\<in>set (fxParticles ?st1). p_a p \<le> real (length fs) * p_va p"
    unfolding ps1 by (rule renderParticles_budget) (use Cons.prems(2) in simp)
  show ?case
  proof (cases "fs = []")
    case True
    have "fxParticles ?st1 = []"
    proof (rule ccontr)
      assume "fxParticles ?st1 \<noteq> []"
      then obtain q where q: "q \<in> set (fxParticles ?st1)" by (cases "fxParticles ?st1") auto
      then have "p_a q \<le> 0" using bud True by simp
      moreover have "0 < p_a q" using q renderParticles_alive[of q vp "fxParticles st"] ps1 by simp
      ultimately show False by simp
    qed
    then show ?thesis by (simp add: f True)
  next
    case False
    from Cons.IH[OF False bud] show ?thesis by (simp add: f)
  qed
qed

text \<open>
  C9. With a rendering context: after a frame every particle left in the pool has an opacity
  above 0 and is not more than 120 below the viewport; the update never yields a negative
  opacity, and a burst adds particles of opacity 1, so a pool without negative opacities
  stays so. After \<open>n \<ge> 1\<close> frames, where \<open>n\<close> decrements bring the opacity of every particle
  to 0 or below (\<open>a \<le> n * va\<close>), the pool is empty.
\<close>

theorem particles_opacity_and_pruning:
  assumes "hasCtx h"
  shows "(\<forall>p\<in>set (fxParticles (fxTick h vp ts st)). 0 < p_a p \<and> p_y p \<le> innerHeight vp + 120)
     \<and> p_a (updateParticle q) \<ge> 0
     \<and> ((\<forall>p\<in>set (fxParticles st). 0 \<le> p_a p) \<longrightarrow>
          (\<forall>p\<in>set (fxParticles (spawnConfetti h x y cnt spread st)). 0 \<le> p_a p))
     \<and> (fs \<noteq> [] \<and> (\<forall>p\<in>set (fxParticles st). p_a p \<le> real (length fs) * p_va p) \<longrightarrow>
          fxParticles (runTicks h fs st) = [])"
proof -
  have 1: "\<forall>p\<in>set (fxParticles (fxTick h vp ts st)). 0 < p_a p \<and> p_y p \<le> innerHeight vp + 120"
    using assms renderParticles_alive by (simp add: fxTick_particles)
  have 2: "p_a (updateParticle q) \<ge> 0" by (simp add: updateParticle_a)
  have 4: "fs \<noteq> [] \<and> (\<forall>p\<in>set (fxParticles st). p_a p \<le> real (length fs) * p_va p) \<longrightarrow>
          fxParticles (runTicks h fs st) = []"
    using runTicks_prunes[OF assms] by blast
  have 3: "(\<forall>p\<in>set (fxParticles st). 0 \<le> p_a p) \<longrightarrow>
          (\<forall>p\<in>set (fxParticles (spawnConfetti h x y cnt spread st)). 0 \<le> p_a p)"
    by (auto simp: spawnConfetti_def spawnLoop_eq[OF refl] newParticle_def Let_def)
  show ?thesis using 1 2 3 4 by blast
qed

theorem particles_opacity_and_pruning_witness:
  "fxParticles (runTicks \<lparr> hasCtx = True, prefersReducedMotion = False, random = constRandom (1/2) \<rparr>
       (replicate 46 (\<lparr> innerWidth = 1000, innerHeight = 800 \<rparr>, 16))
       (spawnConfetti \<lparr> hasCtx = True, prefersReducedMotion = False, random = constRandom (1/2) \<rparr>
          0 0 90 3.6 initialPage)) = []"
proof -
  let ?h = "\<lparr> hasCtx = True, prefersReducedMotion = False, random = constRandom (1/2) \<rparr>"
  let ?st = "spawnConfetti ?h 0 0 90 3.6 initialPage"
  let ?fs = "replicate 46 (\<lparr> innerWidth = 1000, innerHeight = 800 \<rparr>, 16::real)"
  have h: "hasCtx ?h" by simp
  have "\<forall>p\<in>set (fxParticles ?st). p_a p \<le> real (length ?fs) * p_va p"
    by (simp add: spawnConfetti_def spawnLoop_eq[OF refl] initialPage_def newParticle_def
        constRandom_def Let_def)
  moreover have "?fs \<noteq> []" by simp
  ultimately show ?thesis
    using particles_opacity_and_pruning[OF h, where st = ?st and fs = ?fs] by blast
qed

section \<open>The target of a spin\<close>

text \<open>
  The remainder of JavaScript on the non-negative numbers, and the normalisation
  \<^verbatim>\<open>((d % 360) + 360) % 360\<close>, which is the remainder of \<open>d\<close> modulo 360 in \<open>[0, 360)\<close> for
  every \<open>d\<close>.
\<close>

lemma floor_shift360:
  fixes r :: real
  assumes "0 \<le> r" "r < 360"
  shows "\<lfloor>(r + 360 * of_int m) / 360\<rfloor> = m"
proof (rule floor_unique)
  show "of_int m \<le> (r + 360 * of_int m) / 360" using assms by simp
  show "(r + 360 * of_int m) / 360 < of_int m + 1" using assms by simp
qed

lemma rmod360_range:
  fixes d :: real
  shows "0 \<le> d - 360 * of_int \<lfloor>d / 360\<rfloor> \<and> d - 360 * of_int \<lfloor>d / 360\<rfloor> < 360"
proof -
  have "of_int \<lfloor>d / 360\<rfloor> \<le> d / 360" by (rule of_int_floor_le)
  moreover have "d / 360 < of_int \<lfloor>d / 360\<rfloor> + 1" by linarith
  ultimately show ?thesis by (simp add: field_simps)
qed

lemma jsmod_nonneg:
  assumes "0 \<le> a"
  shows "jsmod a 360 = a - 360 * of_int \<lfloor>a / 360\<rfloor>"
  using assms by (simp add: jsmod_def trunc_def)

lemma jsmod_small:
  assumes "0 \<le> a" "a < 360"
  shows "jsmod a 360 = a"
proof -
  have "\<lfloor>a / 360\<rfloor> = 0"
    using floor_shift360[OF assms, of 0] by simp
  then show ?thesis using assms(1) by (simp add: jsmod_nonneg)
qed

lemma jsmod_once:
  assumes "360 \<le> a" "a < 720"
  shows "jsmod a 360 = a - 360"
proof -
  have "\<lfloor>((a - 360) + 360 * of_int 1) / 360\<rfloor> = 1"
    by (rule floor_shift360) (use assms in simp_all)
  then have "\<lfloor>a / 360\<rfloor> = 1" by simp
  then show ?thesis using assms(1) by (simp add: jsmod_nonneg)
qed

lemma jsmod_norm:
  "jsmod (jsmod d 360 + 360) 360 = d - 360 * of_int \<lfloor>d / 360\<rfloor>"
proof (cases "0 \<le> d")
  case True
  let ?r = "d - 360 * of_int \<lfloor>d / 360\<rfloor>"
  have r: "0 \<le> ?r" "?r < 360" using rmod360_range[of d] by simp_all
  have "jsmod d 360 = ?r" using True by (rule jsmod_nonneg)
  moreover have "jsmod (?r + 360) 360 = ?r + 360 - 360"
    by (rule jsmod_once) (use r in simp_all)
  ultimately show ?thesis by simp
next
  case False
  let ?c = "\<lceil>d / 360\<rceil>"
  let ?s = "d - 360 * of_int ?c"
  have js: "jsmod d 360 = ?s" using False by (simp add: jsmod_def trunc_def)
  have c1: "d / 360 \<le> of_int ?c" by (rule le_of_int_ceiling)
  have c2: "of_int ?c - 1 < d / 360" using ceiling_correct[of "d / 360"] by simp
  have s1: "- 360 < ?s" using c2 by linarith
  have s2: "?s \<le> 0" using c1 by linarith
  note s = s1 s2
  show ?thesis
  proof (cases "?s = 0")
    case True
    then have d: "d / 360 = of_int ?c" by simp
    then have "\<lfloor>d / 360\<rfloor> = ?c" by (metis floor_of_int)
    moreover have "jsmod (0 + 360) 360 = (0 + 360) - 360"
      by (rule jsmod_once) simp_all
    ultimately show ?thesis using js True by simp
  next
    case False
    then have s': "?s < 0" using s by simp
    have e1: "jsmod (?s + 360) 360 = ?s + 360"
      by (rule jsmod_small) (use s s' in simp_all)
    have e2: "\<lfloor>d / 360\<rfloor> = ?c - 1"
    proof (rule floor_unique)
      show "of_int (?c - 1) \<le> d / 360" using c2 by simp
      show "d / 360 < of_int (?c - 1) + 1" using s' by (simp add: field_simps)
    qed
    have "jsmod (jsmod d 360 + 360) 360 = ?s + 360"
      by (simp only: js e1)
    also have "\<dots> = d - 360 * of_int (?c - 1)"
      by (simp add: algebra_simps)
    also have "\<dots> = d - 360 * of_int \<lfloor>d / 360\<rfloor>"
      by (simp only: e2)
    finally show ?thesis .
  qed
qed

lemma rmod360_shift:
  fixes r :: real
  assumes "0 \<le> r" "r < 360"
  shows "(r + 360 * of_int m) - 360 * of_int \<lfloor>(r + 360 * of_int m) / 360\<rfloor> = r"
  by (simp add: floor_shift360[OF assms])

lemma computeRiggedStopAngle_eq:
  assumes "0 \<le> random h k" "random h k < 1"
  shows "computeRiggedStopAngle h k = 201.6 - 43.2 * random h k"
proof -
  let ?u = "random h k"
  have "computeRiggedStopAngle h k = jsmod (561.6 - 43.2 * ?u) 360"
    by (simp add: computeRiggedStopAngle_def sectorCenterAngle_def sectorSize_def
        sectorCount_def prizeIndex_def Let_def algebra_simps)
  also have "\<dots> = (561.6 - 43.2 * ?u) - 360"
    by (rule jsmod_once) (use assms in simp_all)
  finally show ?thesis by simp
qed

lemma extraSpins_range:
  fixes u :: real
  assumes "0 \<le> u" "u < 1"
  shows "0 \<le> \<lfloor>u * 3\<rfloor> \<and> \<lfloor>u * 3\<rfloor> \<le> 2"
proof -
  have "0 \<le> \<lfloor>u * 3\<rfloor>" using assms by simp
  moreover have "\<lfloor>u * 3\<rfloor> < 3" using assms by (simp add: floor_less_iff)
  ultimately show ?thesis by simp
qed

text \<open>
  The target differs from the rigged offset \<open>fo\<close> by a whole number of turns, and the last
  part of the way, \<^verbatim>\<open>deltaToOffset\<close>, is not negative.
\<close>

lemma target_shape:
  fixes r fo :: real and e :: int
  assumes fo: "0 \<le> fo" "fo < 360"
  defines "cm \<equiv> jsmod (jsmod r 360 + 360) 360"
  defines "delta \<equiv> jsmod (fo - cm + 360) 360"
  defines "tgt \<equiv> r + of_int e * 360 + delta"
  shows "0 \<le> delta \<and> delta < 360 \<and> tgt - 360 * of_int \<lfloor>tgt / 360\<rfloor> = fo"
proof -
  let ?q = "\<lfloor>r / 360\<rfloor>"
  have cm: "cm = r - 360 * of_int ?q" unfolding cm_def by (rule jsmod_norm)
  have cmr: "0 \<le> cm" "cm < 360" unfolding cm using rmod360_range[of r] by simp_all
  let ?a = "fo - cm + 360"
  have a: "0 \<le> ?a" "?a < 720" using fo cmr by simp_all
  let ?j = "\<lfloor>?a / 360\<rfloor>"
  have d: "delta = ?a - 360 * of_int ?j" unfolding delta_def using a(1) by (rule jsmod_nonneg)
  have dr: "0 \<le> delta" "delta < 360" unfolding d using rmod360_range[of ?a] by simp_all
  have "tgt = fo + 360 * of_int (?q + e + 1 - ?j)"
    unfolding tgt_def d cm by (simp add: algebra_simps)
  then have "tgt - 360 * of_int \<lfloor>tgt / 360\<rfloor> = fo"
    using rmod360_shift[OF fo, of "?q + e + 1 - ?j"] by simp
  then show ?thesis using dr by simp
qed

text \<open>
  A run of frames of an animation. Frames before the end of the duration keep the animation
  as it is, up to the last angle seen; the first frame at or after the end puts the wheel on
  the target and ends the animation, and later frames change nothing.
\<close>

lemma runAnim_idle:
  "(\<forall>s. spinTask st \<noteq> Animating s) \<Longrightarrow> runAnim h nows st = (st, [])"
proof (induction nows)
  case Nil
  show ?case by simp
next
  case (Cons now nows)
  have "animStep h now st = (st, [])"
    using Cons.prems by (cases "spinTask st") (simp_all add: animStep_def)
  then show ?case using Cons by simp
qed

lemma animStep_early:
  assumes "spinTask st = Animating s" "0 < a_durationMs s"
    "now - a_start s < a_durationMs s"
  shows "\<exists>deg. fst (animStep h now st) =
           st\<lparr> wheelRotation := deg, spinTask := Animating (s\<lparr> a_prev := deg \<rparr>) \<rparr>"
proof -
  have "(now - a_start s) / a_durationMs s < 1" using assms(2,3) by simp
  then have "clamp ((now - a_start s) / a_durationMs s) 0 1 < 1"
    by (simp add: clamp_def)
  then show ?thesis
    using assms(1) by (cases "prefersReducedMotion h") (auto simp: animStep_def Let_def)
qed

lemma animStep_last:
  assumes "spinTask st = Animating s" "0 < a_durationMs s"
    "a_durationMs s \<le> now - a_start s"
  shows "fst (animStep h now st) = st\<lparr> wheelRotation := a_to s, spinTask := Settling \<rparr>"
proof -
  have "1 \<le> (now - a_start s) / a_durationMs s" using assms(2,3) by simp
  then have "clamp ((now - a_start s) / a_durationMs s) 0 1 = 1"
    by (simp add: clamp_def)
  then show ?thesis
    using assms(1) by (simp add: animStep_def Let_def)
qed

lemma runAnim_stops:
  "spinTask st = Animating s \<Longrightarrow> 0 < a_durationMs s \<Longrightarrow>
   \<exists>now'\<in>set nows. a_durationMs s \<le> now' - a_start s \<Longrightarrow>
   fst (runAnim h nows st) = st\<lparr> wheelRotation := a_to s, spinTask := Settling \<rparr>"
proof (induction nows arbitrary: st s)
  case Nil
  then show ?case by simp
next
  case (Cons now nows)
  show ?case
  proof (cases "a_durationMs s \<le> now - a_start s")
    case True
    let ?st1 = "st\<lparr> wheelRotation := a_to s, spinTask := Settling \<rparr>"
    have 1: "fst (animStep h now st) = ?st1"
      using Cons.prems(1,2) True by (rule animStep_last)
    have "runAnim h nows ?st1 = (?st1, [])"
      by (rule runAnim_idle) simp
    then show ?thesis using 1 by (simp add: case_prod_unfold)
  next
    case False
    then have early: "now - a_start s < a_durationMs s" by simp
    from animStep_early[OF Cons.prems(1,2) early, of h] obtain deg where
      1: "fst (animStep h now st) =
            st\<lparr> wheelRotation := deg, spinTask := Animating (s\<lparr> a_prev := deg \<rparr>) \<rparr>"
      by blast
    let ?st1 = "st\<lparr> wheelRotation := deg, spinTask := Animating (s\<lparr> a_prev := deg \<rparr>) \<rparr>"
    have rest: "\<exists>now'\<in>set nows. a_durationMs (s\<lparr> a_prev := deg \<rparr>) \<le> now' - a_start (s\<lparr> a_prev := deg \<rparr>)"
      using Cons.prems(3) False by auto
    have "fst (runAnim h nows ?st1) =
          ?st1\<lparr> wheelRotation := a_to (s\<lparr> a_prev := deg \<rparr>), spinTask := Settling \<rparr>"
      by (rule Cons.IH[OF _ _ rest]) (use Cons.prems(2) in simp_all)
    then show ?thesis using 1 by (simp add: case_prod_unfold)
  qed
qed

lemma runAnim_running:
  "spinTask st = Animating s \<Longrightarrow> 0 < a_durationMs s \<Longrightarrow>
   \<forall>now'\<in>set nows. now' - a_start s < a_durationMs s \<Longrightarrow>
   \<exists>deg prev. fst (runAnim h nows st) =
      st\<lparr> wheelRotation := deg, spinTask := Animating (s\<lparr> a_prev := prev \<rparr>) \<rparr>"
proof (induction nows arbitrary: st s)
  case Nil
  have "st = st\<lparr> wheelRotation := wheelRotation st, spinTask := Animating (s\<lparr> a_prev := a_prev s \<rparr>) \<rparr>"
    using Nil.prems(1) by simp
  then show ?case by (metis fst_conv runAnim.simps(1))
next
  case (Cons now nows)
  have early: "now - a_start s < a_durationMs s" using Cons.prems(3) by simp
  from animStep_early[OF Cons.prems(1,2) early, of h] obtain deg where
    1: "fst (animStep h now st) =
          st\<lparr> wheelRotation := deg, spinTask := Animating (s\<lparr> a_prev := deg \<rparr>) \<rparr>"
    by blast
  let ?st1 = "st\<lparr> wheelRotation := deg, spinTask := Animating (s\<lparr> a_prev := deg \<rparr>) \<rparr>"
  have "\<exists>deg' prev. fst (runAnim h nows ?st1) =
      ?st1\<lparr> wheelRotation := deg', spinTask := Animating (s\<lparr> a_prev := deg \<rparr>\<lparr> a_prev := prev \<rparr>) \<rparr>"
    by (rule Cons.IH) (use Cons.prems(2,3) in simp_all)
  then obtain deg' prev where "fst (runAnim h nows ?st1) =
      ?st1\<lparr> wheelRotation := deg', spinTask := Animating (s\<lparr> a_prev := deg \<rparr>\<lparr> a_prev := prev \<rparr>) \<rparr>"
    by blast
  then have "fst (runAnim h (now # nows) st) =
      st\<lparr> wheelRotation := deg', spinTask := Animating (s\<lparr> a_prev := prev \<rparr>) \<rparr>"
    using 1 by (simp add: case_prod_unfold)
  then show ?case by blast
qed

lemma spinClick_session:
  assumes "\<not> spinning st"
  shows "\<exists>dur ease.
     0 < dur \<and> dur \<le> 26000 \<and>
     spinClick h now st =
       st\<lparr> spinning := True, spinBtnDisabled := True, rngPos := rngPos st + 2,
           spinTask := Animating
             \<lparr> a_start = now, a_from = wheelRotation st,
               a_to = wheelRotation st
                    + of_int (7 + \<lfloor>random h (rngPos st + 1) * 3\<rfloor>) * 360
                    + jsmod (computeRiggedStopAngle h (rngPos st)
                             - jsmod (jsmod (wheelRotation st) 360 + 360) 360 + 360) 360,
               a_durationMs = dur, a_easingFn = ease, a_prev = wheelRotation st \<rparr> \<rparr>"
proof (cases "prefersReducedMotion h")
  case True
  show ?thesis
    by (rule exI[of _ 2500], rule exI[of _ "\<lambda>t. easeOutPower t 4"])
       (use assms True in \<open>simp add: spinClick_def animateWheelToWithEasing_def Let_def\<close>)
next
  case False
  let ?tgt = "wheelRotation st
                    + of_int (7 + \<lfloor>random h (rngPos st + 1) * 3\<rfloor>) * 360
                    + jsmod (computeRiggedStopAngle h (rngPos st)
                             - jsmod (jsmod (wheelRotation st) 360 + 360) 360 + 360) 360"
  let ?dur = "clamp (max 0 (?tgt - wheelRotation st) / 360 * 2400) 14000 (26000::real)"
  have "0 < ?dur" "?dur \<le> 26000" by (simp_all add: clamp_def)
  then show ?thesis
    by (intro exI[of _ ?dur] exI[of _ "\<lambda>t. easeOutPower t 7"])
       (use assms False in \<open>simp add: spinClick_def animateWheelToWithEasing_def Let_def add.assoc\<close>)
qed

text \<open>
  C1. A click on the spin button while the wheel is idle starts an animation from the
  current rotation to a target that lies ahead of it (by at least seven turns), and the
  target modulo 360 lies in the range \<open>[144, 216)\<close> of sector 2, more precisely within
  \<open>0.3 * sectorSize\<close> of its centre, so also in the range widened by the jitter bound. This
  holds for every random source with values in \<open>[0, 1)\<close> and every current rotation. The
  wheel stops there and nowhere else: over any run of frames that all come before the end
  of the duration (at most 26 seconds) the animation goes on with the same target, and
  after any run of frames with one at or after the end the rotation is the target and the
  animation is over.
\<close>

theorem spin_target_rigged:
  assumes "\<not> spinning st" and "unitRandom h"
  shows "\<exists>s. spinTask (spinClick h now st) = Animating s
     \<and> a_from s = wheelRotation st
     \<and> a_to s - a_from s > 0
     \<and> prizeIndex * sectorSize \<le> a_to s - 360 * of_int \<lfloor>a_to s / 360\<rfloor>
     \<and> a_to s - 360 * of_int \<lfloor>a_to s / 360\<rfloor> < (prizeIndex + 1) * sectorSize
     \<and> sectorCenterAngle prizeIndex - 0.3 * sectorSize < a_to s - 360 * of_int \<lfloor>a_to s / 360\<rfloor>
     \<and> a_to s - 360 * of_int \<lfloor>a_to s / 360\<rfloor> \<le> sectorCenterAngle prizeIndex + 0.3 * sectorSize
     \<and> 0 < a_durationMs s \<and> a_durationMs s \<le> 26000
     \<and> (\<forall>nows. (\<forall>now'\<in>set nows. now' - now < a_durationMs s) \<longrightarrow>
           spinning (fst (runAnim h nows (spinClick h now st)))
           \<and> (\<exists>s'. spinTask (fst (runAnim h nows (spinClick h now st))) = Animating s'
                 \<and> a_to s' = a_to s \<and> a_from s' = a_from s \<and> a_start s' = now
                 \<and> a_durationMs s' = a_durationMs s))
     \<and> (\<forall>nows. (\<exists>now'\<in>set nows. a_durationMs s \<le> now' - now) \<longrightarrow>
           wheelRotation (fst (runAnim h nows (spinClick h now st))) = a_to s
           \<and> spinTask (fst (runAnim h nows (spinClick h now st))) = Settling
           \<and> spinning (fst (runAnim h nows (spinClick h now st))))"
proof -
  let ?u = "random h (rngPos st)"
  let ?v = "random h (rngPos st + 1)"
  have u: "0 \<le> ?u" "?u < 1" and v: "0 \<le> ?v" "?v < 1"
    using assms(2) by (simp_all add: unitRandom_def)
  let ?fo = "computeRiggedStopAngle h (rngPos st)"
  have fo: "?fo = 201.6 - 43.2 * ?u" using u by (rule computeRiggedStopAngle_eq)
  have fo_lo: "158.4 < ?fo" and fo_hi: "?fo \<le> 201.6" using u by (simp_all add: fo)
  have fo_r: "0 \<le> ?fo" "?fo < 360" using fo_lo fo_hi by simp_all
  let ?e = "7 + \<lfloor>?v * 3\<rfloor>"
  let ?delta = "jsmod (?fo - jsmod (jsmod (wheelRotation st) 360 + 360) 360 + 360) 360"
  let ?tgt = "wheelRotation st + of_int ?e * 360 + ?delta"
  from target_shape[OF fo_r, of "wheelRotation st" ?e]
  have delta: "0 \<le> ?delta" and m: "?tgt - 360 * of_int \<lfloor>?tgt / 360\<rfloor> = ?fo"
    by simp_all
  have e: "7 \<le> ?e" using extraSpins_range[OF v] by simp
  then have "(7::real) \<le> of_int ?e" by linarith
  moreover have "0 < (w + E * 360 + D) - w" if "7 \<le> E" "0 \<le> D" for w E D :: real
    using that by linarith
  ultimately have fwd: "?tgt - wheelRotation st > 0" using delta by blast
  obtain dur ease where dur: "0 < dur" "dur \<le> 26000" and click:
    "spinClick h now st =
       st\<lparr> spinning := True, spinBtnDisabled := True, rngPos := rngPos st + 2,
           spinTask := Animating
             \<lparr> a_start = now, a_from = wheelRotation st, a_to = ?tgt,
               a_durationMs = dur, a_easingFn = ease, a_prev = wheelRotation st \<rparr> \<rparr>"
    using spinClick_session[OF assms(1), of h now] by blast
  let ?s = "\<lparr> a_start = now, a_from = wheelRotation st, a_to = ?tgt,
               a_durationMs = dur, a_easingFn = ease, a_prev = wheelRotation st \<rparr>"
  let ?c = "spinClick h now st"
  have task: "spinTask ?c = Animating ?s" by (simp add: click)
  have spin: "spinning ?c" by (simp add: click)
  have durs: "0 < a_durationMs ?s" using dur(1) by simp
  have running: "spinning (fst (runAnim h nows ?c))
           \<and> (\<exists>s'. spinTask (fst (runAnim h nows ?c)) = Animating s'
                 \<and> a_to s' = a_to ?s \<and> a_from s' = a_from ?s \<and> a_start s' = now
                 \<and> a_durationMs s' = a_durationMs ?s)"
    if "\<forall>now'\<in>set nows. now' - now < a_durationMs ?s" for nows
  proof -
    have "\<forall>now'\<in>set nows. now' - a_start ?s < a_durationMs ?s" using that by simp
    from runAnim_running[OF task durs this, of h] obtain deg prev where
      "fst (runAnim h nows ?c) =
         ?c\<lparr> wheelRotation := deg, spinTask := Animating (?s\<lparr> a_prev := prev \<rparr>) \<rparr>"
      by blast
    then show ?thesis using spin by simp
  qed
  have stops: "wheelRotation (fst (runAnim h nows ?c)) = a_to ?s
           \<and> spinTask (fst (runAnim h nows ?c)) = Settling
           \<and> spinning (fst (runAnim h nows ?c))"
    if "\<exists>now'\<in>set nows. a_durationMs ?s \<le> now' - now" for nows
  proof -
    have "\<exists>now'\<in>set nows. a_durationMs ?s \<le> now' - a_start ?s" using that by simp
    from runAnim_stops[OF task durs this, of h]
    have "fst (runAnim h nows ?c) = ?c\<lparr> wheelRotation := a_to ?s, spinTask := Settling \<rparr>" .
    then show ?thesis using spin by simp
  qed
  have am: "a_to ?s - 360 * of_int \<lfloor>a_to ?s / 360\<rfloor> = ?fo"
    using m by simp
  have b1: "prizeIndex * sectorSize \<le> ?fo"
    using fo_lo by (simp add: prizeIndex_def sectorSize_def sectorCount_def)
  have b2: "?fo < (prizeIndex + 1) * sectorSize"
    using fo_hi by (simp add: prizeIndex_def sectorSize_def sectorCount_def)
  have b3: "sectorCenterAngle prizeIndex - 0.3 * sectorSize < ?fo"
    using fo_lo
    by (simp add: prizeIndex_def sectorSize_def sectorCount_def sectorCenterAngle_def)
  have b4: "?fo \<le> sectorCenterAngle prizeIndex + 0.3 * sectorSize"
    using fo_hi
    by (simp add: prizeIndex_def sectorSize_def sectorCount_def sectorCenterAngle_def)
  show ?thesis
  proof (intro exI[of _ ?s] conjI)
    show "spinTask (spinClick h now st) = Animating ?s" by (rule task)
    show "a_from ?s = wheelRotation st" by simp
    show "a_to ?s - a_from ?s > 0" using fwd by simp
    show "prizeIndex * sectorSize \<le> a_to ?s - 360 * of_int \<lfloor>a_to ?s / 360\<rfloor>"
      unfolding am by (rule b1)
    show "a_to ?s - 360 * of_int \<lfloor>a_to ?s / 360\<rfloor> < (prizeIndex + 1) * sectorSize"
      unfolding am by (rule b2)
    show "sectorCenterAngle prizeIndex - 0.3 * sectorSize
            < a_to ?s - 360 * of_int \<lfloor>a_to ?s / 360\<rfloor>"
      unfolding am by (rule b3)
    show "a_to ?s - 360 * of_int \<lfloor>a_to ?s / 360\<rfloor>
            \<le> sectorCenterAngle prizeIndex + 0.3 * sectorSize"
      unfolding am by (rule b4)
    show "0 < a_durationMs ?s" by (rule durs)
    show "a_durationMs ?s \<le> 26000" using dur(2) by simp
    show "\<forall>nows. (\<forall>now'\<in>set nows. now' - now < a_durationMs ?s) \<longrightarrow>
           spinning (fst (runAnim h nows (spinClick h now st)))
           \<and> (\<exists>s'. spinTask (fst (runAnim h nows (spinClick h now st))) = Animating s'
                 \<and> a_to s' = a_to ?s \<and> a_from s' = a_from ?s \<and> a_start s' = now
                 \<and> a_durationMs s' = a_durationMs ?s)"
      using running by blast
    show "\<forall>nows. (\<exists>now'\<in>set nows. a_durationMs ?s \<le> now' - now) \<longrightarrow>
           wheelRotation (fst (runAnim h nows (spinClick h now st))) = a_to ?s
           \<and> spinTask (fst (runAnim h nows (spinClick h now st))) = Settling
           \<and> spinning (fst (runAnim h nows (spinClick h now st)))"
      using stops by blast
  qed
qed

theorem spin_target_rigged_witness:
  "\<not> spinning initialPage
   \<and> unitRandom \<lparr> hasCtx = True, prefersReducedMotion = False, random = constRandom 0 \<rparr>
   \<and> (\<exists>s. spinTask (spinClick
              \<lparr> hasCtx = True, prefersReducedMotion = False, random = constRandom 0 \<rparr> 0
              initialPage) = Animating s
          \<and> a_from s = 0
          \<and> a_to s - a_from s > 0
          \<and> 144 \<le> a_to s - 360 * of_int \<lfloor>a_to s / 360\<rfloor>
          \<and> a_to s - 360 * of_int \<lfloor>a_to s / 360\<rfloor> < 216
          \<and> wheelRotation (fst (runAnim
               \<lparr> hasCtx = True, prefersReducedMotion = False, random = constRandom 0 \<rparr>
               [16, 7000, 30000]
               (spinClick
                  \<lparr> hasCtx = True, prefersReducedMotion = False, random = constRandom 0 \<rparr> 0
                  initialPage))) = a_to s
          \<and> spinTask (fst (runAnim
               \<lparr> hasCtx = True, prefersReducedMotion = False, random = constRandom 0 \<rparr>
               [16, 7000, 30000]
               (spinClick
                  \<lparr> hasCtx = True, prefersReducedMotion = False, random = constRandom 0 \<rparr> 0
                  initialPage))) = Settling)"
proof -
  let ?h = "\<lparr> hasCtx = True, prefersReducedMotion = False, random = constRandom 0 \<rparr>"
  have a: "\<not> spinning initialPage" by (simp add: initialPage_def)
  have b: "unitRandom ?h" by (simp add: unitRandom_def constRandom_def)
  have c: "wheelRotation initialPage = 0" by (simp add: initialPage_def)
  have d: "prizeIndex * sectorSize = 144" "(prizeIndex + 1) * sectorSize = 216"
    by (simp_all add: prizeIndex_def sectorSize_def sectorCount_def)
  from spin_target_rigged[OF a b, of 0] obtain s where s:
    "spinTask (spinClick ?h 0 initialPage) = Animating s"
    "a_from s = 0" "a_to s - a_from s > 0"
    "144 \<le> a_to s - 360 * of_int \<lfloor>a_to s / 360\<rfloor>"
    "a_to s - 360 * of_int \<lfloor>a_to s / 360\<rfloor> < 216"
    "a_durationMs s \<le> 26000"
    and stop: "\<And>nows. \<exists>now'\<in>set nows. a_durationMs s \<le> now' - 0 \<Longrightarrow>
           wheelRotation (fst (runAnim ?h nows (spinClick ?h 0 initialPage))) = a_to s
           \<and> spinTask (fst (runAnim ?h nows (spinClick ?h 0 initialPage))) = Settling"
    unfolding c d by blast
  have "\<exists>now'\<in>set [16, 7000, 30000]. a_durationMs s \<le> now' - 0"
    using s(6) by simp
  from stop[OF this] s(1-5) a b show ?thesis by blast
qed

section \<open>The rain pool after a sync\<close>

text \<open>
  The pool is grown to the target, the shuffle permutes the list of sides, the drops take
  the shuffled sides in order, and reseeding keeps the side of a drop that has one.
\<close>

declare growRain.simps [simp del]

lemma growRain_length:
  "length (fst (growRain h vp target ds k)) = max (length ds) (nat target)"
proof (induction h vp target ds k rule: growRain.induct)
  case (1 h vp target ds k)
  show ?case
  proof (cases "int (length ds) < target")
    case True
    then show ?thesis
      using 1[OF True] by (subst growRain.simps) (simp add: max_def)
  next
    case False
    then show ?thesis
      by (subst growRain.simps) (auto simp: max_def)
  qed
qed

lemma desiredRainCount_range: "12 \<le> desiredRainCount vp \<and> desiredRainCount vp \<le> 30"
  by (simp add: desiredRainCount_def clamp_def Let_def)

lemma shuffleFrom_perm:
  assumes "unitRandom h"
  shows "i < length arr \<Longrightarrow> length arr < 2147483648 \<Longrightarrow>
         mset (fst (shuffleFrom h i arr k)) = mset arr"
proof (induction i arbitrary: arr k)
  case 0
  show ?case by simp
next
  case (Suc i)
  let ?u = "random h k"
  let ?j = "toInt32 (?u * (real (Suc i) + 1))"
  have u: "0 \<le> ?u" "?u < 1" using assms by (simp_all add: unitRandom_def)
  have "0 \<le> toInt32 (?u * real (Suc (Suc i))) \<and> toInt32 (?u * real (Suc (Suc i))) < int (Suc (Suc i))"
    by (rule toInt32_index) (use u Suc.prems in simp_all)
  moreover have "real (Suc i) + 1 = real (Suc (Suc i))" by simp
  ultimately have j: "0 \<le> ?j" "?j < int (Suc (Suc i))" by (simp_all only:)
  then have jn: "nat ?j < length arr" using Suc.prems(1) by linarith
  have jl: "?j < int (length arr)" using jn j(1) by linarith
  let ?arr2 = "arr[Suc i := arr ! nat ?j, nat ?j := arr ! Suc i]"
  have step: "shuffleFrom h (Suc i) arr k = shuffleFrom h i ?arr2 (k + 1)"
    using Suc.prems(1) j(1) jl jn
    by (simp add: Let_def js_get_def js_set_def js_nth_def del: of_nat_Suc)
  have "mset ?arr2 = mset arr"
    by (rule mset_swap) (use Suc.prems(1) jn in simp_all)
  moreover have "mset (fst (shuffleFrom h i ?arr2 (k + 1))) = mset ?arr2"
    by (rule Suc.IH) (use Suc.prems in simp_all)
  ultimately show ?case by (simp only: step)
qed

lemma shuffleInPlace_perm:
  assumes "unitRandom h" "length arr < 2147483648"
  shows "mset (fst (shuffleInPlace h arr k)) = mset arr"
proof (cases arr)
  case Nil
  then show ?thesis by (simp add: shuffleInPlace_def)
next
  case (Cons a as)
  then have "length arr - 1 < length arr" by simp
  then show ?thesis
    unfolding shuffleInPlace_def using assms by (intro shuffleFrom_perm)
qed

lemma assignSides_sides:
  "map d_side (fst (assignSides h vp sides i ds k)) =
     map (\<lambda>n. js_get sides (i + int n)) [0..<length ds]"
proof (induction ds arbitrary: i k)
  case Nil
  show ?case by simp
next
  case (Cons d ds)
  have "map (\<lambda>n. js_get sides (i + int n)) [0..<length (d # ds)] =
        js_get sides i # map (\<lambda>n. js_get sides (i + 1 + int n)) [0..<length ds]"
    by (simp add: map_upt_Suc del: upt_Suc) (simp add: add.commute add.left_commute)
  then show ?case
    using Cons.IH by (simp add: Let_def case_prod_unfold)
qed

lemma js_get_all:
  "map (\<lambda>n. js_get sides (0 + int n)) [0..<length sides] = sides"
  by (rule nth_equalityI) (simp_all add: js_get_def js_nth_def)

lemma reseedAll_sides:
  "\<forall>d\<in>set ds. d_side d = Some Left \<or> d_side d = Some Right \<Longrightarrow>
   map d_side (fst (reseedAll h vp ds k)) = map d_side ds"
proof (induction ds arbitrary: k)
  case Nil
  show ?case by simp
next
  case (Cons d ds)
  have "d_side (fst (resetDrop h vp True True (d_side d) k)) = d_side d"
    using Cons.prems by (auto simp: resetDrop_def Let_def case_prod_unfold)
  then show ?case
    using Cons by (simp add: case_prod_unfold Let_def)
qed

lemma balanced_sides:
  assumes "mset sides = mset (replicate (n div 2) (Some Left) @ replicate (n - n div 2) (Some Right))"
  shows "length (filter (\<lambda>s. s = Some Left) sides) = n div 2"
    and "length (filter (\<lambda>s. s = Some Right) sides) = n - n div 2"
    and "length sides = n"
    and "\<forall>s\<in>set sides. s = Some Left \<or> s = Some Right"
proof -
  let ?init = "replicate (n div 2) (Some Left) @ replicate (n - n div 2) (Some Right)"
  have cnt: "length (filter P sides) = length (filter P ?init)" for P
    by (metis assms mset_filter size_mset)
  show "length (filter (\<lambda>s. s = Some Left) sides) = n div 2"
    by (simp add: cnt)
  show "length (filter (\<lambda>s. s = Some Right) sides) = n - n div 2"
    by (simp add: cnt)
  show "length sides = n"
    using mset_eq_length[OF assms] by simp
  have "set sides = set ?init" using assms by (rule mset_eq_setD)
  then show "\<forall>s\<in>set sides. s = Some Left \<or> s = Some Right" by auto
qed

lemma syncRainDrops_sides:
  assumes en: "rainEnabled st" and ur: "unitRandom h"
  shows "mset (map d_side (rainDrops (syncRainDrops h vp reseed st))) =
         mset (replicate (nat (desiredRainCount vp) div 2) (Some Left) @
               replicate (nat (desiredRainCount vp) - nat (desiredRainCount vp) div 2)
                 (Some Right))"
proof -
  define n where "n = nat (desiredRainCount vp)"
  define target where "target = desiredRainCount vp"
  define g where "g = growRain h vp target (rainDrops st) (rngPos st)"
  define ds2 where "ds2 = (if int (length (fst g)) > target then take (nat target) (fst g) else fst g)"
  define sides where
    "sides = replicate (length ds2 div 2) (Some Left) @
             replicate (length ds2 - length ds2 div 2) (Some Right)"
  define sh where "sh = shuffleInPlace h sides (snd g)"
  define as where "as = assignSides h vp (fst sh) 0 ds2 (snd sh)"
  define r where "r = (if reseed then reseedAll h vp (fst as) (snd as) else as)"
  have tr: "12 \<le> target" "target \<le> 30"
    using desiredRainCount_range[of vp] by (simp_all add: target_def)
  have n: "n = nat target" by (simp add: n_def target_def)
  have "length (fst g) = max (length (rainDrops st)) (nat target)"
    unfolding g_def by (rule growRain_length)
  then have len2: "length ds2 = n"
    using tr by (auto simp: ds2_def n max_def)
  then have pos: "length ds2 > 0" using tr n by simp
  have sync: "rainDrops (syncRainDrops h vp reseed st) = fst r"
    using en pos
    by (simp add: syncRainDrops_def Let_def case_prod_unfold r_def as_def sh_def sides_def
        ds2_def g_def target_def)
  have "length sides < 2147483648" using len2 tr n by (simp add: sides_def)
  then have perm: "mset (fst sh) = mset sides"
    unfolding sh_def using ur by (intro shuffleInPlace_perm)
  have sides_n: "sides = replicate (n div 2) (Some Left) @ replicate (n - n div 2) (Some Right)"
    by (simp add: sides_def len2)
  note bal = balanced_sides[OF perm[unfolded sides_n]]
  have "map d_side (fst as) = map (\<lambda>m. js_get (fst sh) (0 + int m)) [0..<length ds2]"
    unfolding as_def by (rule assignSides_sides)
  also have "\<dots> = fst sh"
    using js_get_all[of "fst sh"] bal(3) len2 by simp
  finally have as_sides: "map d_side (fst as) = fst sh" .
  have "\<forall>d\<in>set (fst as). d_side d = Some Left \<or> d_side d = Some Right"
  proof
    fix d assume "d \<in> set (fst as)"
    then have "d_side d \<in> set (map d_side (fst as))" by simp
    then show "d_side d = Some Left \<or> d_side d = Some Right"
      using bal(4) by (simp only: as_sides)
  qed
  then have "map d_side (fst r) = fst sh"
    using as_sides by (simp add: r_def reseedAll_sides)
  then show ?thesis
    using perm by (simp add: sync sides_n n_def)
qed

text \<open>
  C6. After \<^verbatim>\<open>syncRainDrops\<close> with the rain enabled, with or without reseeding, the pool has
  exactly \<^verbatim>\<open>desiredRainCount()\<close> drops, every drop is on the left or on the right, and the
  numbers of left and right drops differ by at most 1. The random source is any with values
  in \<open>[0, 1)\<close>.
\<close>

theorem syncRainDrops_balanced:
  assumes "rainEnabled st" and "unitRandom h"
  shows "int (length (rainDrops (syncRainDrops h vp reseed st))) = desiredRainCount vp
     \<and> \<bar>int (length (filter (\<lambda>d. d_side d = Some Left) (rainDrops (syncRainDrops h vp reseed st))))
        - int (length (filter (\<lambda>d. d_side d = Some Right) (rainDrops (syncRainDrops h vp reseed st))))\<bar>
        \<le> 1
     \<and> length (filter (\<lambda>d. d_side d = Some Left) (rainDrops (syncRainDrops h vp reseed st)))
        + length (filter (\<lambda>d. d_side d = Some Right) (rainDrops (syncRainDrops h vp reseed st)))
        = length (rainDrops (syncRainDrops h vp reseed st))"
proof -
  let ?ds = "rainDrops (syncRainDrops h vp reseed st)"
  let ?n = "nat (desiredRainCount vp)"
  note bal = balanced_sides[OF syncRainDrops_sides[OF assms, of vp reseed]]
  have fl: "length (filter (\<lambda>d. d_side d = s) ?ds) = length (filter (\<lambda>t. t = s) (map d_side ?ds))" for s
    by (simp add: filter_map comp_def)
  have L: "length (filter (\<lambda>d. d_side d = Some Left) ?ds) = ?n div 2"
    using bal(1) by (simp only: fl)
  have R: "length (filter (\<lambda>d. d_side d = Some Right) ?ds) = ?n - ?n div 2"
    using bal(2) by (simp only: fl)
  have len: "length ?ds = ?n" using bal(3) by simp
  have "0 \<le> desiredRainCount vp" using desiredRainCount_range[of vp] by simp
  then have 1: "int (length ?ds) = desiredRainCount vp" by (simp add: len)
  have 2: "\<bar>int (?n div 2) - int (?n - ?n div 2)\<bar> \<le> 1" by linarith
  have 3: "?n div 2 + (?n - ?n div 2) = ?n" by simp
  show ?thesis
    unfolding L R using 1 2 3 len by simp
qed

theorem syncRainDrops_balanced_witness:
  "length (rainDrops (syncRainDrops
       \<lparr> hasCtx = True, prefersReducedMotion = False, random = constRandom (1/4) \<rparr>
       \<lparr> innerWidth = 390, innerHeight = 844 \<rparr> False
       (initialPage\<lparr> rainEnabled := True \<rparr>))) = 12
   \<and> \<bar>int (length (filter (\<lambda>d. d_side d = Some Left) (rainDrops (syncRainDrops
       \<lparr> hasCtx = True, prefersReducedMotion = False, random = constRandom (1/4) \<rparr>
       \<lparr> innerWidth = 390, innerHeight = 844 \<rparr> False
       (initialPage\<lparr> rainEnabled := True \<rparr>))))) -
      int (length (filter (\<lambda>d. d_side d = Some Right) (rainDrops (syncRainDrops
       \<lparr> hasCtx = True, prefersReducedMotion = False, random = constRandom (1/4) \<rparr>
       \<lparr> innerWidth = 390, innerHeight = 844 \<rparr> False
       (initialPage\<lparr> rainEnabled := True \<rparr>)))))\<bar> \<le> 1"
proof -
  have a: "rainEnabled (initialPage\<lparr> rainEnabled := True \<rparr>)" by simp
  have b: "unitRandom \<lparr> hasCtx = True, prefersReducedMotion = False, random = constRandom (1/4) \<rparr>"
    by (simp add: unitRandom_def constRandom_def)
  have "\<lfloor>(390::real) / 44\<rfloor> = 8" by (rule floor_unique) simp_all
  then have c: "desiredRainCount \<lparr> innerWidth = 390, innerHeight = 844 \<rparr> = 12"
    by (simp add: desiredRainCount_def clamp_def)
  show ?thesis
    using syncRainDrops_balanced[OF a b, of "\<lparr> innerWidth = 390, innerHeight = 844 \<rparr>" False]
    unfolding c by simp
qed

section \<open>Pool size and band width\<close>

lemma clamp_cases:
  fixes n :: "'a::linorder"
  assumes "lo \<le> hi"
  shows "clamp n lo hi = (if n < lo then lo else if n > hi then hi else n)"
  using assms by (auto simp: clamp_def max_def min_def)

text \<open>
  C5. For every viewport width \<open>w\<close> the target size of the pool is \<open>\<lfloor>w / 44\<rfloor>\<close> clamped to
  \<open>[12, 30]\<close>, and the width of a band is \<open>0.22 * w\<close> rounded to the nearest integer (halves
  upwards, as \<^verbatim>\<open>Math.round\<close> does) and clamped to \<open>[140, 280]\<close>. At the width 1000 the target
  is 22 and the band is 220 wide, and after a sync with the rain enabled the pool has 22
  drops, 11 on the left and 11 on the right.
\<close>

theorem rain_targets:
  "desiredRainCount vp =
     (if \<lfloor>innerWidth vp / 44\<rfloor> < 12 then 12
      else if \<lfloor>innerWidth vp / 44\<rfloor> > 30 then 30
      else \<lfloor>innerWidth vp / 44\<rfloor>)
   \<and> sideBandWidth vp =
     (if js_round (0.22 * innerWidth vp) < 140 then 140
      else if js_round (0.22 * innerWidth vp) > 280 then 280
      else js_round (0.22 * innerWidth vp))
   \<and> (innerWidth vp = 1000 \<longrightarrow> desiredRainCount vp = 22 \<and> sideBandWidth vp = 220)
   \<and> (innerWidth vp = 1000 \<and> rainEnabled st \<and> unitRandom h \<longrightarrow>
        length (rainDrops (syncRainDrops h vp reseed st)) = 22
        \<and> length (filter (\<lambda>d. d_side d = Some Left) (rainDrops (syncRainDrops h vp reseed st))) = 11
        \<and> length (filter (\<lambda>d. d_side d = Some Right) (rainDrops (syncRainDrops h vp reseed st))) = 11)"
proof -
  have 1: "desiredRainCount vp =
     (if \<lfloor>innerWidth vp / 44\<rfloor> < 12 then 12
      else if \<lfloor>innerWidth vp / 44\<rfloor> > 30 then 30
      else \<lfloor>innerWidth vp / 44\<rfloor>)"
    unfolding desiredRainCount_def Let_def by (rule clamp_cases) simp
  have 2: "sideBandWidth vp =
     (if js_round (0.22 * innerWidth vp) < 140 then 140
      else if js_round (0.22 * innerWidth vp) > 280 then 280
      else js_round (0.22 * innerWidth vp))"
    unfolding sideBandWidth_def mult.commute[of "innerWidth vp"] by (rule clamp_cases) simp
  have 3: "desiredRainCount vp = 22 \<and> sideBandWidth vp = 220" if "innerWidth vp = 1000"
  proof -
    have "\<lfloor>(1000::real) / 44\<rfloor> = 22" by (rule floor_unique) simp_all
    moreover have "\<lfloor>(1000::real) * 0.22 + 1 / 2\<rfloor> = 220" by (rule floor_unique) simp_all
    ultimately show ?thesis
      using that by (simp add: desiredRainCount_def sideBandWidth_def js_round_def clamp_def)
  qed
  have 4: "length (rainDrops (syncRainDrops h vp reseed st)) = 22
        \<and> length (filter (\<lambda>d. d_side d = Some Left) (rainDrops (syncRainDrops h vp reseed st))) = 11
        \<and> length (filter (\<lambda>d. d_side d = Some Right) (rainDrops (syncRainDrops h vp reseed st))) = 11"
    if w: "innerWidth vp = 1000" and en: "rainEnabled st" and ur: "unitRandom h"
  proof -
    let ?ds = "rainDrops (syncRainDrops h vp reseed st)"
    have n: "nat (desiredRainCount vp) = 22" using 3[OF w] by simp
    note bal = balanced_sides[OF syncRainDrops_sides[OF en ur, of vp reseed], unfolded n]
    have fl: "length (filter (\<lambda>d. d_side d = s) ?ds) = length (filter (\<lambda>t. t = s) (map d_side ?ds))" for s
      by (simp add: filter_map comp_def)
    show ?thesis
      using bal(1,2,3) by (simp add: fl)
  qed
  show ?thesis using 1 2 3 4 by blast
qed

text \<open>The pool after the page is loaded is the pool after the first sync.\<close>

lemma pageLoad_rain:
  "hasCtx h \<Longrightarrow>
   rainDrops (pageLoad h vp now) =
     rainDrops (syncRainDrops h vp True (initialPage\<lparr> rainEnabled := True \<rparr>))"
proof -
  assume h: "hasCtx h"
  have "resizeFx h vp initialPage = initialPage"
    by (simp add: resizeFx_def syncRainDrops_def initialPage_def)
  then show ?thesis
    using h by (simp add: pageLoad_def startFxLoop_def)
qed

theorem rain_targets_witness:
  "length (rainDrops (pageLoad
       \<lparr> hasCtx = True, prefersReducedMotion = False, random = constRandom (1/2) \<rparr>
       \<lparr> innerWidth = 1000, innerHeight = 800 \<rparr> 0)) = 22
   \<and> length (filter (\<lambda>d. d_side d = Some Left) (rainDrops (pageLoad
       \<lparr> hasCtx = True, prefersReducedMotion = False, random = constRandom (1/2) \<rparr>
       \<lparr> innerWidth = 1000, innerHeight = 800 \<rparr> 0))) = 11
   \<and> length (filter (\<lambda>d. d_side d = Some Right) (rainDrops (pageLoad
       \<lparr> hasCtx = True, prefersReducedMotion = False, random = constRandom (1/2) \<rparr>
       \<lparr> innerWidth = 1000, innerHeight = 800 \<rparr> 0))) = 11
   \<and> sideBandWidth \<lparr> innerWidth = 1000, innerHeight = 800 \<rparr> = 220"
proof -
  let ?h = "\<lparr> hasCtx = True, prefersReducedMotion = False, random = constRandom (1/2) \<rparr>"
  let ?vp = "\<lparr> innerWidth = 1000, innerHeight = 800 \<rparr>"
  have ur: "unitRandom ?h"
    by (simp add: unitRandom_def constRandom_def)
  have en: "rainEnabled (initialPage\<lparr> rainEnabled := True \<rparr>)" by simp
  have w: "innerWidth ?vp = 1000" by simp
  have pl: "rainDrops (pageLoad ?h ?vp 0) =
      rainDrops (syncRainDrops ?h ?vp True (initialPage\<lparr> rainEnabled := True \<rparr>))"
    by (rule pageLoad_rain) simp
  note t = rain_targets[where vp = ?vp and h = ?h
        and st = "initialPage\<lparr> rainEnabled := True \<rparr>" and reseed = True]
  from t w have "sideBandWidth ?vp = 220" by blast
  moreover from t w en ur have
    "length (rainDrops (syncRainDrops ?h ?vp True (initialPage\<lparr> rainEnabled := True \<rparr>))) = 22
     \<and> length (filter (\<lambda>d. d_side d = Some Left)
          (rainDrops (syncRainDrops ?h ?vp True (initialPage\<lparr> rainEnabled := True \<rparr>)))) = 11
     \<and> length (filter (\<lambda>d. d_side d = Some Right)
          (rainDrops (syncRainDrops ?h ?vp True (initialPage\<lparr> rainEnabled := True \<rparr>)))) = 11"
    by blast
  ultimately show ?thesis
    unfolding pl by blast
qed

section \<open>Band confinement of the rain\<close>

text \<open>
  From a viewport width of 20 on, the bounds of both bands are ordered, and then a frame
  leaves every drop within the band of its side: a drop that moved past an edge is put on
  the edge with its horizontal velocity turned inwards, and a recycled drop gets a position
  inside the band. This holds for any number of frames at such a viewport.
\<close>

lemma sideBandWidth_range: "140 \<le> sideBandWidth vp \<and> sideBandWidth vp \<le> 280"
  by (simp add: sideBandWidth_def clamp_def)

lemma sideBounds_ordered:
  assumes "20 \<le> innerWidth vp"
  shows "fst (sideBounds vp sd) \<le> snd (sideBounds vp sd)"
proof -
  have "(140::real) \<le> of_int (sideBandWidth vp)"
    using sideBandWidth_range[of vp] by linarith
  then show ?thesis
    using assms by (simp add: sideBounds_def Let_def)
qed

lemma rand_between:
  assumes "0 \<le> random h k" "random h k < 1" "mn \<le> mx"
  shows "mn \<le> rand h k mn mx \<and> rand h k mn mx \<le> mx"
proof -
  have "0 \<le> random h k * (mx - mn)" using assms by simp
  moreover have "random h k * (mx - mn) \<le> 1 * (mx - mn)"
    using assms by (intro mult_right_mono) simp_all
  ultimately show ?thesis by (simp add: rand_def)
qed

lemma resetDrop_inBand:
  assumes "20 \<le> innerWidth vp" "unitRandom h"
  shows "inBand vp (fst (resetDrop h vp startAbove keepSide oldSide k))"
proof -
  define sd where "sd = (if \<not> keepSide \<or> (oldSide \<noteq> Some Left \<and> oldSide \<noteq> Some Right)
      then Some (if random h (k + 2) < 0.5 then Left else Right) else oldSide)"
  define k1 where "k1 = (if \<not> keepSide \<or> (oldSide \<noteq> Some Left \<and> oldSide \<noteq> Some Right)
      then k + 3 else k + 2)"
  let ?d = "fst (resetDrop h vp startAbove keepSide oldSide k)"
  have side: "d_side ?d = sd"
    and x: "d_x ?d = rand h k1 (fst (sideBounds vp sd)) (snd (sideBounds vp sd))"
    by (simp_all add: resetDrop_def Let_def case_prod_unfold sd_def k1_def)
  have "sd \<noteq> None" by (auto simp: sd_def)
  then have sd: "(case sd of None \<Rightarrow> Some Left | Some s \<Rightarrow> Some s) = sd" by (cases sd) simp_all
  have "0 \<le> random h k1" "random h k1 < 1" using assms(2) by (simp_all add: unitRandom_def)
  from rand_between[OF this sideBounds_ordered[OF assms(1), of sd]]
  show ?thesis
    by (simp add: inBand_def side x sd case_prod_unfold)
qed

lemma renderDrop_inBand:
  assumes "20 \<le> innerWidth vp" "unitRandom h"
  shows "inBand vp (fst (renderDrop h vp dt True d k))"
proof -
  let ?sd = "case d_side d of None \<Rightarrow> Some Left | Some s \<Rightarrow> Some s"
  have ord: "fst (sideBounds vp ?sd) \<le> snd (sideBounds vp ?sd)"
    by (rule sideBounds_ordered[OF assms(1)])
  show ?thesis
    using ord resetDrop_inBand[OF assms]
    by (auto simp: renderDrop_def Let_def case_prod_unfold inBand_def)
qed

lemma renderRain_inBand:
  assumes "20 \<le> innerWidth vp" "unitRandom h"
  shows "\<forall>d\<in>set (fst (renderRain h vp dt True ds k)). inBand vp d"
proof (induction ds arbitrary: k)
  case Nil
  show ?case by simp
next
  case (Cons d ds)
  show ?case
    using Cons[of "snd (renderDrop h vp dt True d k)"] renderDrop_inBand[OF assms, of dt d k]
    by (simp add: case_prod_unfold Let_def)
qed

lemma fxTick_rain:
  "hasCtx h \<Longrightarrow> rainEnabled st \<Longrightarrow>
   rainDrops (fxTick h vp ts st) =
     fst (renderRain h vp (clamp (ts - fxLastTs st) 0 34 / 1000) True (rainDrops st) (rngPos st))
   \<and> rainEnabled (fxTick h vp ts st)"
  by (cases "rainDrops st") (simp_all add: fxTick_def renderFxFrame_def Let_def case_prod_unfold)

lemma rain_confined_wide_viewport:
  assumes "20 \<le> innerWidth vp" "unitRandom h" "hasCtx h" "rainEnabled st"
  shows "\<forall>d\<in>set (rainDrops (fxTick h vp ts st)). inBand vp d"
  using renderRain_inBand[OF assms(1,2)] fxTick_rain[OF assms(3,4)] by simp

lemma rain_confined_wide_viewport_run:
  assumes "20 \<le> innerWidth vp" "unitRandom h" "hasCtx h"
  shows "rainEnabled st \<Longrightarrow> tss \<noteq> [] \<Longrightarrow>
     \<forall>d\<in>set (rainDrops (runTicks h (map (Pair vp) tss) st)). inBand vp d"
proof (induction tss arbitrary: st)
  case Nil
  then show ?case by simp
next
  case (Cons ts tss)
  have en: "rainEnabled (fxTick h vp ts st)"
    using fxTick_rain[OF assms(3) Cons.prems(1)] by simp
  show ?case
  proof (cases "tss = []")
    case True
    then show ?thesis
      using rain_confined_wide_viewport[OF assms Cons.prems(1)] by simp
  next
    case False
    from Cons.IH[OF en False] show ?thesis by simp
  qed
qed

lemma renderDrop_bounce:
  assumes w: "20 \<le> innerWidth vp" and inb: "inBand vp d" and dt: "0 \<le> dt"
    and stay: "\<not> d_y d + d_vy d * dt > innerHeight vp + 36"
  shows "(d_x d + d_vx d * dt < fst (sideBounds vp (case d_side d of None \<Rightarrow> Some Left | Some s \<Rightarrow> Some s)) \<longrightarrow>
            d_x (fst (renderDrop h vp dt True d k)) = fst (sideBounds vp (case d_side d of None \<Rightarrow> Some Left | Some s \<Rightarrow> Some s))
          \<and> d_vx (fst (renderDrop h vp dt True d k)) = - d_vx d)
       \<and> (d_x d + d_vx d * dt > snd (sideBounds vp (case d_side d of None \<Rightarrow> Some Left | Some s \<Rightarrow> Some s)) \<longrightarrow>
            d_x (fst (renderDrop h vp dt True d k)) = snd (sideBounds vp (case d_side d of None \<Rightarrow> Some Left | Some s \<Rightarrow> Some s))
          \<and> d_vx (fst (renderDrop h vp dt True d k)) = - d_vx d)"
proof -
  let ?sd = "case d_side d of None \<Rightarrow> Some Left | Some s \<Rightarrow> Some s"
  let ?mn = "fst (sideBounds vp ?sd)" and ?mx = "snd (sideBounds vp ?sd)"
  have ord: "?mn \<le> ?mx" by (rule sideBounds_ordered[OF w])
  have x: "?mn \<le> d_x d" "d_x d \<le> ?mx"
    using inb by (simp_all add: inBand_def Let_def case_prod_unfold)
  have neg: "d_vx d < 0" if "d_x d + d_vx d * dt < ?mn"
  proof (rule ccontr)
    assume "\<not> d_vx d < 0"
    then have "0 \<le> d_vx d * dt" using dt by simp
    then show False using that x(1) by linarith
  qed
  have pos: "0 < d_vx d" if "d_x d + d_vx d * dt > ?mx"
  proof (rule ccontr)
    assume "\<not> 0 < d_vx d"
    then have "d_vx d * dt \<le> 0" using dt by (simp add: mult_nonpos_nonneg)
    then show False using that x(2) by linarith
  qed
  show ?thesis
    using ord stay neg pos
    by (auto simp: renderDrop_def Let_def case_prod_unfold)
qed

text \<open>
  Below a width of 20 the bounds of the right band are not ordered, since the lower bound is
  raised to the padding and the upper bound \<open>innerWidth - 10\<close> is below it: no position is
  within them.
\<close>

lemma narrow_right_band_empty:
  assumes "innerWidth vp < 20" "d_side d = Some Right"
  shows "\<not> inBand vp d"
  using assms by (auto simp: inBand_def sideBounds_def Let_def)

text \<open>
  This is reached from the load of the page: a frame keeps the sides of the drops, the sync
  at the load puts 6 of the 12 drops on the right, and with a viewport 15 wide each of them
  is outside its band after the first frame, whatever the random values are.
\<close>

lemma renderDrop_side:
  assumes "d_side d = Some s"
  shows "d_side (fst (renderDrop h vp dt advance d k)) = Some s"
  using assms by (cases s) (auto simp: renderDrop_def resetDrop_def Let_def case_prod_unfold)

lemma renderRain_sides:
  "\<forall>d\<in>set ds. d_side d = Some Left \<or> d_side d = Some Right \<Longrightarrow>
   map d_side (fst (renderRain h vp dt advance ds k)) = map d_side ds"
proof (induction ds arbitrary: k)
  case Nil
  show ?case by simp
next
  case (Cons d ds)
  obtain s where s: "d_side d = Some s" using Cons.prems by auto
  show ?case
    using Cons renderDrop_side[OF s, of h vp dt advance k]
    by (simp add: case_prod_unfold Let_def s)
qed

lemma syncRainDrops_enabled:
  "rainEnabled (syncRainDrops h vp reseed st) = rainEnabled st"
  by (simp add: syncRainDrops_def Let_def case_prod_unfold)

lemma pageLoad_enabled:
  assumes "hasCtx h"
  shows "rainEnabled (pageLoad h vp now)"
proof -
  have "pageLoad h vp now =
        startFxLoop h now (syncRainDrops h vp True ((resizeFx h vp initialPage)\<lparr> rainEnabled := True \<rparr>))"
    using assms by (simp add: pageLoad_def Let_def)
  then show ?thesis
    by (simp add: startFxLoop_def syncRainDrops_enabled)
qed

lemma narrow_viewport_page_load:
  assumes "unitRandom h" "hasCtx h" "innerWidth vp = 15"
  shows "length (filter (\<lambda>d. d_side d = Some Right \<and> \<not> inBand vp d)
           (rainDrops (fxTick h vp ts (pageLoad h vp now)))) = 6"
proof -
  let ?ini = "initialPage\<lparr> rainEnabled := True \<rparr>"
  let ?st = "pageLoad h vp now"
  have en0: "rainEnabled ?ini" by simp
  have "\<lfloor>(15::real) / 44\<rfloor> = 0" by (rule floor_unique) simp_all
  then have n: "nat (desiredRainCount vp) = 12"
    using assms(3) by (simp add: desiredRainCount_def clamp_def)
  note bal = balanced_sides[OF syncRainDrops_sides[OF en0 assms(1), of vp True], unfolded n]
  have pl: "rainDrops ?st = rainDrops (syncRainDrops h vp True ?ini)"
    using assms(2) by (rule pageLoad_rain)
  have en: "rainEnabled ?st"
    using assms(2) by (rule pageLoad_enabled)
  let ?ds = "rainDrops (fxTick h vp ts ?st)"
  have valid: "\<forall>d\<in>set (rainDrops ?st). d_side d = Some Left \<or> d_side d = Some Right"
  proof
    fix d assume "d \<in> set (rainDrops ?st)"
    then have "d_side d \<in> set (map d_side (rainDrops (syncRainDrops h vp True ?ini)))"
      by (simp add: pl)
    then show "d_side d = Some Left \<or> d_side d = Some Right"
      using bal(4) by blast
  qed
  have sides: "map d_side ?ds = map d_side (rainDrops (syncRainDrops h vp True ?ini))"
    using fxTick_rain[OF assms(2) en, of vp ts] renderRain_sides[OF valid] by (simp add: pl)
  have "filter (\<lambda>d. d_side d = Some Right \<and> \<not> inBand vp d) ?ds =
        filter (\<lambda>d. d_side d = Some Right) ?ds"
    by (rule filter_cong) (use assms(3) narrow_right_band_empty[of vp] in auto)
  moreover have "length (filter (\<lambda>d. d_side d = Some Right) ?ds) =
        length (filter (\<lambda>t. t = Some Right) (map d_side ?ds))"
    by (simp add: filter_map comp_def)
  ultimately show ?thesis
    using bal(2) by (simp add: sides)
qed

text \<open>
  C7 fails on a narrow viewport. At \<open>innerWidth = 15\<close> the bounds of the right band are
  \<open>(10, 5)\<close>; a frame moves a drop of the right side from \<open>x = 7.5\<close> (where \<^verbatim>\<open>resetDrop\<close> puts
  it with random values 1/2) to the lower bound 10 and then to the upper bound 5, where it is
  outside the band.
\<close>

theorem rain_band_narrow_viewport:
  "sideBounds \<lparr> innerWidth = 15, innerHeight = 600 \<rparr> (Some Right) = (10, 5)
   \<and> map d_x (rainDrops (fxTick
        \<lparr> hasCtx = True, prefersReducedMotion = False, random = constRandom (1/2) \<rparr>
        \<lparr> innerWidth = 15, innerHeight = 600 \<rparr> 16
        (initialPage\<lparr> rainEnabled := True, rainDrops :=
           [\<lparr> d_icon = Some 0x1F36C, d_size = 24, d_side = Some Right, d_x = 15 / 2, d_y = 45,
              d_vy = 195 / 2, d_vx = 0, d_phase = pi, d_vphase = 6 / 5, d_alpha = 8 / 25 \<rparr>] \<rparr>)))
     = [5]
   \<and> \<not> inBand \<lparr> innerWidth = 15, innerHeight = 600 \<rparr>
        (hd (rainDrops (fxTick
        \<lparr> hasCtx = True, prefersReducedMotion = False, random = constRandom (1/2) \<rparr>
        \<lparr> innerWidth = 15, innerHeight = 600 \<rparr> 16
        (initialPage\<lparr> rainEnabled := True, rainDrops :=
           [\<lparr> d_icon = Some 0x1F36C, d_size = 24, d_side = Some Right, d_x = 15 / 2, d_y = 45,
              d_vy = 195 / 2, d_vx = 0, d_phase = pi, d_vphase = 6 / 5, d_alpha = 8 / 25 \<rparr>] \<rparr>))))"
proof -
  have r: "js_round (33 / 10) = 3"
    unfolding js_round_def by (rule floor_unique) simp_all
  have b: "sideBandWidth \<lparr> innerWidth = 15, innerHeight = 600 \<rparr> = 140"
    by (simp add: sideBandWidth_def r clamp_def)
  have sb: "sideBounds \<lparr> innerWidth = 15, innerHeight = 600 \<rparr> (Some Right) = (10, 5)"
    by (simp add: sideBounds_def b Let_def)
  show ?thesis
    by (simp add: sb fxTick_def renderFxFrame_def renderDrop_def initialPage_def Let_def clamp_def
        inBand_def renderParticles_def)
qed

end
